theory Spec2Isabelle
  imports Main "HOL-Library.Sublist"
begin

section \<open>The forced-async opcode interceptor\<close>

subsection \<open>Values, deferred values and the ready queue of the host\<close>

text \<open>
  The values an opcode handler can hand back, as far as the interceptor tells them apart.
  A \<open>Future\<close> is an address in the heap of deferred values; a \<open>Value\<close> carries a PHP
  value; \<open>Reference\<close> and \<open>Variable\<close> are the two reference-like classes; everything
  else (\<open>undefined\<close>, a boolean, any other object) is passed through. The classes
  \<open>Future\<close>, \<open>Value\<close>, \<open>Reference\<close> and \<open>Variable\<close> of the runtime are distinct
  constructors with separate prototype chains, hence one constructor each.
\<close>

datatype 'v jsval =
    Undefined
  | Boolean bool
  | Value 'v
  | Future nat
  | Reference nat
  | Variable nat
  | Other nat

datatype 'v fstate = Pending | Fulfilled "'v jsval" | Rejected "'v jsval"

text \<open>
  A cell of the heap of deferred values. A future holds a state of its own, or it has been
  resolved with a future that was still pending: then it awaits a future, the one named in
  its cell, and is settled together with it.
\<close>

datatype 'v cell = Holds "'v fstate" | Awaits nat

text \<open>
  The continuations the interceptor leaves on the ready queue, defunctionalised:
  \<open>ResolveWith n x\<close> is the continuation of \<open>createAsyncPresent(x)\<close> for the new future
  \<open>n\<close>; \<open>AssignLater n r v\<close> is the executor
  \<^verbatim>\<open>function (resolve, reject) { result.setValue(value).next(resolve, reject); }\<close>
  of lines 180-182 with \<open>result = r\<close>, \<open>value = v\<close>, for the new future \<open>n\<close>.
\<close>

datatype 'v task =
    ResolveWith nat "'v jsval"
  | AssignLater nat "'v jsval" "'v jsval"

text \<open>
  The state of the host: the heap of deferred values (a future's address is its index),
  the FIFO ready queue, and the state \<open>ext\<close> of the wrapped PHP runtime (the contents of
  its references and variables), which the harness never inspects.
\<close>

record ('v, 'x) world =
  futures :: "'v cell list"
  queue :: "'v task list"
  ext :: 'x

text \<open>
  The capabilities of the runtime's own \<open>Reference\<close> and \<open>Variable\<close> objects. They belong
  to the PHP runtime library, which is loaded from \<open>phpCorePath\<close> at run time, so they are
  parameters here: each takes the receiver and the runtime state, and returns a value and
  the new runtime state.
\<close>

record ('v, 'x) phpcore =
  getValue :: "'v jsval \<Rightarrow> 'x \<Rightarrow> 'v jsval \<times> 'x"
  setValue :: "'v jsval \<Rightarrow> 'v jsval \<Rightarrow> 'x \<Rightarrow> 'v jsval \<times> 'x"
  unset :: "'v jsval \<Rightarrow> 'x \<Rightarrow> 'v jsval \<times> 'x"
  getReference :: "'v jsval \<Rightarrow> 'x \<Rightarrow> 'v jsval \<times> 'x"
  setReference :: "'v jsval \<Rightarrow> 'v jsval \<Rightarrow> 'x \<Rightarrow> 'v jsval \<times> 'x"
  clearReference :: "'v jsval \<Rightarrow> 'x \<Rightarrow> 'v jsval \<times> 'x"
  isDefined :: "'v jsval \<Rightarrow> 'x \<Rightarrow> 'v jsval \<times> 'x"
  isReadable :: "'v jsval \<Rightarrow> 'x \<Rightarrow> 'v jsval \<times> 'x"
  isEmpty :: "'v jsval \<Rightarrow> 'x \<Rightarrow> 'v jsval \<times> 'x"
  isSet :: "'v jsval \<Rightarrow> 'x \<Rightarrow> 'v jsval \<times> 'x"
  isReference :: "'v jsval \<Rightarrow> 'x \<Rightarrow> 'v jsval \<times> 'x"
  raiseUndefined :: "'v jsval \<Rightarrow> 'x \<Rightarrow> 'v jsval \<times> 'x"

text \<open>
  A call into the runtime changes the runtime's state only. A callback whose body is a
  call with no \<open>return\<close> (lines 187-191) makes the call, drops what it returns and
  returns \<open>undefined\<close>.
\<close>

definition call :: "('x \<Rightarrow> 'r \<times> 'x) \<Rightarrow> ('v, 'x) world \<Rightarrow> 'r \<times> ('v, 'x) world" where
  "call m w = (case m (ext w) of (r, e) \<Rightarrow> (r, w\<lparr>ext := e\<rparr>))"

definition command :: "('x \<Rightarrow> 'r \<times> 'x) \<Rightarrow> ('v, 'x) world \<Rightarrow> 'v jsval \<times> ('v, 'x) world" where
  "command m w = (case call m w of (r, w') \<Rightarrow> (Undefined, w'))"

text \<open>\<open>controlBridge.isFuture(result)\<close> and the classes tested with \<open>instanceof\<close>.\<close>

fun isFuture :: "'v jsval \<Rightarrow> bool" where
  "isFuture (Future n) = True"
| "isFuture x = False"

fun instanceofValue :: "'v jsval \<Rightarrow> bool" where
  "instanceofValue (Value v) = True"
| "instanceofValue x = False"

fun instanceofReference :: "'v jsval \<Rightarrow> bool" where
  "instanceofReference (Reference r) = True"
| "instanceofReference x = False"

fun instanceofVariable :: "'v jsval \<Rightarrow> bool" where
  "instanceofVariable (Variable r) = True"
| "instanceofVariable x = False"

text \<open>
  The cell at an address, and the state of the future there: a future that awaits another
  one is pending. An address outside the heap holds nothing settled.
\<close>

definition cell_at :: "('v, 'x) world \<Rightarrow> nat \<Rightarrow> 'v cell" where
  "cell_at w n = (if n < length (futures w) then futures w ! n else Holds Pending)"

definition futureState :: "('v, 'x) world \<Rightarrow> nat \<Rightarrow> 'v fstate" where
  "futureState w n = (case cell_at w n of Holds s \<Rightarrow> s | Awaits r \<Rightarrow> Pending)"

fun isSettled :: "('v, 'x) world \<Rightarrow> 'v jsval \<Rightarrow> bool" where
  "isSettled w (Future n) = (futureState w n \<noteq> Pending)"
| "isSettled w x = False"

text \<open>
  Settling the future at \<open>n\<close> settles with it every future that awaits it. When the
  future at \<open>n\<close> comes to await the future at \<open>r\<close>, so does every future that awaited
  \<open>n\<close>. The future that a pending future awaits, or the future itself when it awaits
  none, is its \<open>root\<close>.
\<close>

definition settle :: "nat \<Rightarrow> 'v fstate \<Rightarrow> ('v, 'x) world \<Rightarrow> ('v, 'x) world" where
  "settle n s w =
     w\<lparr>futures := map (\<lambda>c. if c = Awaits n then Holds s else c) ((futures w)[n := Holds s])\<rparr>"

definition await :: "nat \<Rightarrow> nat \<Rightarrow> ('v, 'x) world \<Rightarrow> ('v, 'x) world" where
  "await n r w =
     w\<lparr>futures := map (\<lambda>c. if c = Awaits n then Awaits r else c) ((futures w)[n := Awaits r])\<rparr>"

definition root :: "('v, 'x) world \<Rightarrow> nat \<Rightarrow> nat" where
  "root w n = (case cell_at w n of Holds s \<Rightarrow> n | Awaits r \<Rightarrow> r)"

text \<open>What a value stands for once it is awaited: a future for its state, anything else for itself.\<close>

definition outcome :: "('v, 'x) world \<Rightarrow> 'v jsval \<Rightarrow> 'v fstate" where
  "outcome w x = (case x of Future f \<Rightarrow> futureState w f | _ \<Rightarrow> Fulfilled x)"

text \<open>
  Modelled from the spec: resolving a deferred value of the runtime library (glossary:
  ``analogous to a promise/future''; section 4.2 step 3: ``preserving the original result
  value/error''). A future is resolved once only, later resolutions are ignored. Resolved
  with a settled future it takes that future's value or error, resolved with a future that
  is still pending it is settled when that future is, with the same value or error (it
  comes to await the root of that future), and resolved with anything else it is
  fulfilled with it.
\<close>

definition resolve :: "nat \<Rightarrow> 'v jsval \<Rightarrow> ('v, 'x) world \<Rightarrow> ('v, 'x) world" where
  "resolve n x w =
     (if n < length (futures w) \<and> futures w ! n = Holds Pending then
        (case x of
           Future b \<Rightarrow>
             if futureState w b = Pending then await n (root w b) w
             else settle n (futureState w b) w
         | _ \<Rightarrow> settle n (Fulfilled x) w)
      else w)"

text \<open>
  Modelled from the spec: \<open>futureFactory.createAsyncPresent\<close> of the runtime library.
  Section 4.2 step 3: ``a freshly created deferred handle that resolves on a later
  scheduling tick, preserving the original result value/error''; section 9: the
  continuation is enqueued on the ready queue of the same executor, in FIFO order.
\<close>

definition futureFactory_createAsyncPresent ::
  "'v jsval \<Rightarrow> ('v, 'x) world \<Rightarrow> 'v jsval \<times> ('v, 'x) world" where
  "futureFactory_createAsyncPresent x w =
     (Future (length (futures w)),
      w\<lparr>futures := futures w @ [Holds Pending],
        queue := queue w @ [ResolveWith (length (futures w)) x]\<rparr>)"

text \<open>
  Modelled from the spec: \<open>valueFactory.createAsyncPresent\<close> of the runtime library.
  Section 4.2 step 4: ``a deferred-on-next-tick handle carrying that value''.
\<close>

definition valueFactory_createAsyncPresent ::
  "'v jsval \<Rightarrow> ('v, 'x) world \<Rightarrow> 'v jsval \<times> ('v, 'x) world" where
  "valueFactory_createAsyncPresent x w =
     (Future (length (futures w)),
      w\<lparr>futures := futures w @ [Holds Pending],
        queue := queue w @ [ResolveWith (length (futures w)) x]\<rparr>)"

text \<open>
  Modelled from the spec: \<open>valueFactory.createAsyncMicrotaskFuture\<close> of the runtime
  library: a new future whose executor runs on a later tick (section 5: one FIFO queue).
  The executor is given as the task it becomes once the address of the new future is known.
\<close>

definition valueFactory_createAsyncMicrotaskFuture ::
  "(nat \<Rightarrow> 'v task) \<Rightarrow> ('v, 'x) world \<Rightarrow> 'v jsval \<times> ('v, 'x) world" where
  "valueFactory_createAsyncMicrotaskFuture executor w =
     (Future (length (futures w)),
      w\<lparr>futures := futures w @ [Holds Pending],
        queue := queue w @ [executor (length (futures w))]\<rparr>)"

text \<open>
  The twelve callbacks handed to \<open>referenceFactory.createAccessor\<close>, in the order of the
  call (lines 175-203).
\<close>

record ('v, 'x) accessor =
  valueGetter :: "('v, 'x) world \<Rightarrow> 'v jsval \<times> ('v, 'x) world"
  valueSetter :: "'v jsval \<Rightarrow> ('v, 'x) world \<Rightarrow> 'v jsval \<times> ('v, 'x) world"
  unsetter :: "('v, 'x) world \<Rightarrow> 'v jsval \<times> ('v, 'x) world"
  referenceGetter :: "('v, 'x) world \<Rightarrow> 'v jsval \<times> ('v, 'x) world"
  referenceSetter :: "'v jsval \<Rightarrow> ('v, 'x) world \<Rightarrow> 'v jsval \<times> ('v, 'x) world"
  referenceClearer :: "('v, 'x) world \<Rightarrow> 'v jsval \<times> ('v, 'x) world"
  definednessGetter :: "('v, 'x) world \<Rightarrow> 'v jsval \<times> ('v, 'x) world"
  readablenessGetter :: "('v, 'x) world \<Rightarrow> 'v jsval \<times> ('v, 'x) world"
  emptinessGetter :: "('v, 'x) world \<Rightarrow> 'v jsval \<times> ('v, 'x) world"
  setnessGetter :: "('v, 'x) world \<Rightarrow> 'v jsval \<times> ('v, 'x) world"
  referencenessGetter :: "('v, 'x) world \<Rightarrow> 'v jsval \<times> ('v, 'x) world"
  undefinednessRaiser :: "('v, 'x) world \<Rightarrow> 'v jsval \<times> ('v, 'x) world"

text \<open>What \<open>execute\<close> returns: a value of the runtime, or the accessor reference it built.\<close>

datatype ('v, 'x) result =
    Plain "'v jsval"
  | AccessorReference "('v, 'x) accessor"

text \<open>
  Modelled from the spec: \<open>referenceFactory.createAccessor\<close> of the runtime library.
  Section 4.2 step 5: ``a new accessor-style reference whose every capability ... is
  proxied'' to the callback given for it: a capability of the accessor reference is the
  callback at its position.
\<close>

definition referenceFactory_createAccessor :: "('v, 'x) accessor \<Rightarrow> ('v, 'x) result" where
  "referenceFactory_createAccessor callbacks = AccessorReference callbacks"

text \<open>
  An opcode: its handler, which runs against the whole host state, and its traced flag.
  A handler or a capability that throws is outside the model: \<open>execute\<close> catches
  nothing, so such an exception passes through it unchanged.
\<close>

record ('v, 'x) opcode =
  handle :: "('v, 'x) world \<Rightarrow> 'v jsval \<times> ('v, 'x) world"
  isTraced :: bool

subsection \<open>AsyncOpcodeExecutor.prototype.execute (lines 156-207)\<close>

definition execute ::
  "('v, 'x) phpcore \<Rightarrow> ('v, 'x) opcode \<Rightarrow> ('v, 'x) world \<Rightarrow> ('v, 'x) result \<times> ('v, 'x) world" where
  "execute core opcode w =
     (case handle opcode w of (result, w1) \<Rightarrow>
        if \<not> isTraced opcode then (Plain result, w1)
        else if isFuture result \<and> isSettled w1 result then
          (case futureFactory_createAsyncPresent result w1 of (f, w2) \<Rightarrow> (Plain f, w2))
        else if instanceofValue result then
          (case valueFactory_createAsyncPresent result w1 of (f, w2) \<Rightarrow> (Plain f, w2))
        else if instanceofReference result \<or> instanceofVariable result then
          (referenceFactory_createAccessor
             \<lparr> valueGetter = (\<lambda>w.
                 case call (getValue core result) w of (v, w') \<Rightarrow>
                   valueFactory_createAsyncPresent v w'),
               valueSetter = (\<lambda>value.
                 valueFactory_createAsyncMicrotaskFuture (\<lambda>n. AssignLater n result value)),
               unsetter = (\<lambda>w.
                 case call (unset core result) w of (v, w') \<Rightarrow>
                   futureFactory_createAsyncPresent v w'),
               referenceGetter = call (getReference core result),
               referenceSetter = (\<lambda>reference. command (setReference core result reference)),
               referenceClearer = command (clearReference core result),
               definednessGetter = call (isDefined core result),
               readablenessGetter = call (isReadable core result),
               emptinessGetter = (\<lambda>w.
                 case call (isEmpty core result) w of (v, w') \<Rightarrow>
                   futureFactory_createAsyncPresent v w'),
               setnessGetter = (\<lambda>w.
                 case call (isSet core result) w of (v, w') \<Rightarrow>
                   futureFactory_createAsyncPresent v w'),
               referencenessGetter = call (isReference core result),
               undefinednessRaiser = (\<lambda>w.
                 case call (raiseUndefined core result) w of (v, w') \<Rightarrow>
                   futureFactory_createAsyncPresent v w') \<rparr>,
           w1)
        else (Plain result, w1))"

subsection \<open>The scheduler\<close>

text \<open>
  Running one queued continuation. \<open>AssignLater\<close> performs the assignment on the raw
  reference and passes what it returns to \<open>resolve\<close> (\<open>.next(resolve, reject)\<close>).
\<close>

fun run_task :: "('v, 'x) phpcore \<Rightarrow> 'v task \<Rightarrow> ('v, 'x) world \<Rightarrow> ('v, 'x) world" where
  "run_task core (ResolveWith n x) w = resolve n x w"
| "run_task core (AssignLater n r v) w =
     (case call (setValue core r v) w of (res, w') \<Rightarrow> resolve n res w')"

text \<open>One scheduling tick takes the continuation at the head of the queue and runs it.\<close>

definition tick :: "('v, 'x) phpcore \<Rightarrow> ('v, 'x) world \<Rightarrow> ('v, 'x) world" where
  "tick core w = (case queue w of [] \<Rightarrow> w | t # ts \<Rightarrow> run_task core t (w\<lparr>queue := ts\<rparr>))"

fun ticks :: "nat \<Rightarrow> ('v, 'x) phpcore \<Rightarrow> ('v, 'x) world \<Rightarrow> ('v, 'x) world" where
  "ticks 0 core w = w"
| "ticks (Suc k) core w = ticks k core (tick core w)"

fun task_target :: "'v task \<Rightarrow> nat" where
  "task_target (ResolveWith n x) = n"
| "task_target (AssignLater n r v) = n"

text \<open>Every queued continuation settles a future that has been allocated.\<close>

definition queue_wf :: "('v, 'x) world \<Rightarrow> bool" where
  "queue_wf w = list_all (\<lambda>t. task_target t < length (futures w)) (queue w)"

subsection \<open>Synchronous and deferred capabilities\<close>

text \<open>
  A capability is a synchronous passthrough of a call \<open>raw\<close> into the runtime when it
  returns what \<open>raw\<close> returns, leaves the runtime as \<open>raw\<close> leaves it, and neither
  creates a future nor queues a continuation. It is a synchronous command when it does
  the same but returns \<open>undefined\<close>, whatever \<open>raw\<close> returns.
\<close>

definition synchronous_passthrough ::
  "('x \<Rightarrow> 'r \<times> 'x) \<Rightarrow> ('v, 'x) world \<Rightarrow> 'r \<times> ('v, 'x) world \<Rightarrow> bool" where
  "synchronous_passthrough raw u ret \<longleftrightarrow>
     fst ret = fst (raw (ext u)) \<and> ext (snd ret) = snd (raw (ext u)) \<and>
     futures (snd ret) = futures u \<and> queue (snd ret) = queue u"

definition synchronous_command ::
  "('x \<Rightarrow> 'r \<times> 'x) \<Rightarrow> ('v, 'x) world \<Rightarrow> 'v jsval \<times> ('v, 'x) world \<Rightarrow> bool" where
  "synchronous_command raw u ret \<longleftrightarrow>
     fst ret = Undefined \<and> ext (snd ret) = snd (raw (ext u)) \<and>
     futures (snd ret) = futures u \<and> queue (snd ret) = queue u"

text \<open>
  A call made in the host state \<open>u\<close> completes on a later tick with \<open>s\<close> when it
  returns a future allocated by the call (the first free address of \<open>u\<close>) that is
  pending on return and after every tick that runs a continuation queued before the
  call, and holds \<open>s\<close> from the next tick on.
\<close>

definition completes_later_with ::
  "('v, 'x) phpcore \<Rightarrow> ('v, 'x) world \<Rightarrow> 'v jsval \<times> ('v, 'x) world \<Rightarrow> 'v fstate \<Rightarrow> bool" where
  "completes_later_with core u ret s \<longleftrightarrow>
     fst ret = Future (length (futures u)) \<and>
     length (futures (snd ret)) = Suc (length (futures u)) \<and>
     (\<forall>k. futureState (ticks k core (snd ret)) (length (futures u))
            = (if k \<le> length (queue u) then Pending else s))"

text \<open>
  The future at \<open>n\<close> follows the value \<open>x\<close> in a host state when it is in the state that
  \<open>x\<close> stands for there: fulfilled with \<open>x\<close> if \<open>x\<close> is no future, and pending,
  fulfilled or rejected as the future \<open>x\<close> is.
\<close>

definition follows :: "('v, 'x) world \<Rightarrow> nat \<Rightarrow> 'v jsval \<Rightarrow> bool" where
  "follows w n x \<longleftrightarrow> futureState w n = outcome w x"

text \<open>
  A call made in the host state \<open>u\<close> defers the result of the call \<open>raw\<close> into the runtime
  when it makes that call at once and returns a future allocated by the call; the future
  is pending on return and after every tick that runs a continuation queued before the
  call; and once the next tick has run, whatever continuations are queued and run from
  then on, the future follows what \<open>raw\<close> returned.
\<close>

definition defers_result ::
  "('v, 'x) phpcore \<Rightarrow> ('v, 'x) world \<Rightarrow> 'v jsval \<times> ('v, 'x) world \<Rightarrow>
   ('x \<Rightarrow> 'v jsval \<times> 'x) \<Rightarrow> bool" where
  "defers_result core u ret raw \<longleftrightarrow>
     (let n = length (futures u); q = length (queue u);
          own = ticks (Suc q) core (snd ret)
      in fst ret = Future n \<and> length (futures (snd ret)) = Suc n \<and>
         ext (snd ret) = snd (raw (ext u)) \<and>
         (\<forall>k. k \<le> q \<longrightarrow> futureState (ticks k core (snd ret)) n = Pending) \<and>
         (\<forall>ts k. follows (ticks k core (own\<lparr>queue := ts\<rparr>)) n (fst (raw (ext u)))))"

text \<open>
  A call made in the host state \<open>u\<close> assigns on a later tick when it returns a future
  allocated by the call and leaves the runtime untouched; the future is pending on return
  and after every tick that runs a continuation queued before the call; the next tick
  performs \<open>setValue\<close> on the raw reference, in the runtime state of that moment; and
  whatever continuations are queued and run from then on, the future follows what
  \<open>setValue\<close> returned.
\<close>

definition assigns_later ::
  "('v, 'x) phpcore \<Rightarrow> ('v, 'x) world \<Rightarrow> 'v jsval \<times> ('v, 'x) world \<Rightarrow>
   'v jsval \<Rightarrow> 'v jsval \<Rightarrow> bool" where
  "assigns_later core u ret r v \<longleftrightarrow>
     (let n = length (futures u); q = length (queue u);
          before = ticks q core (snd ret);
          raw = setValue core r v (ext before);
          own = ticks (Suc q) core (snd ret)
      in fst ret = Future n \<and> length (futures (snd ret)) = Suc n \<and>
         ext (snd ret) = ext u \<and>
         (\<forall>k. k \<le> q \<longrightarrow> futureState (ticks k core (snd ret)) n = Pending) \<and>
         ext own = snd raw \<and>
         (\<forall>ts k. follows (ticks k core (own\<lparr>queue := ts\<rparr>)) n (fst raw)))"

text \<open>
  The future at \<open>n\<close> is linked to the value \<open>x\<close> when it follows \<open>x\<close> and, as long as
  both are pending, has the root that \<open>x\<close> has: then whatever settles one settles the
  other.
\<close>

definition linked :: "('v, 'x) world \<Rightarrow> nat \<Rightarrow> 'v jsval \<Rightarrow> bool" where
  "linked w n x \<longleftrightarrow>
     follows w n x \<and>
     (case x of
        Future b \<Rightarrow> futureState w n = Pending \<longrightarrow> root w n = root w b
      | _ \<Rightarrow> True)"

subsection \<open>A small runtime to evaluate the theorems on\<close>

text \<open>
  A runtime with one storage slot, whose state is the content of the slot; every reference
  and variable reads and writes that slot. Setting the target reference answers with the
  receiver, clearing it with \<open>undefined\<close>.
\<close>

definition slot_core :: "(nat, nat jsval) phpcore" where
  "slot_core =
     \<lparr> getValue = (\<lambda>r e. (e, e)),
       setValue = (\<lambda>r v e. (v, v)),
       unset = (\<lambda>r e. (Undefined, Undefined)),
       getReference = (\<lambda>r e. (r, e)),
       setReference = (\<lambda>r x e. (r, x)),
       clearReference = (\<lambda>r e. (Undefined, Undefined)),
       isDefined = (\<lambda>r e. (Boolean (e \<noteq> Undefined), e)),
       isReadable = (\<lambda>r e. (Boolean True, e)),
       isEmpty = (\<lambda>r e. (Boolean (e = Undefined), e)),
       isSet = (\<lambda>r e. (Boolean (e \<noteq> Undefined), e)),
       isReference = (\<lambda>r e. (Boolean False, e)),
       raiseUndefined = (\<lambda>r e. (Value 0, e)) \<rparr>"

text \<open>
  A host state with a settled future at address 0, a pending one at address 1 whose
  continuation is queued, and the slot holding the PHP value 5.
\<close>

definition busy_world :: "(nat, nat jsval) world" where
  "busy_world =
     \<lparr> futures = [Holds (Fulfilled (Value 7)), Holds Pending],
       queue = [ResolveWith 1 (Value 3)],
       ext = Value 5 \<rparr>"

definition returning :: "nat jsval \<Rightarrow> bool \<Rightarrow> (nat, nat jsval) opcode" where
  "returning x traced = \<lparr> handle = (\<lambda>w. (x, w)), isTraced = traced \<rparr>"

text \<open>
  The same runtime, except that reading the value and the empty check answer with the
  future at address 1, which is pending in the host state above.
\<close>

definition lazy_core :: "(nat, nat jsval) phpcore" where
  "lazy_core = slot_core\<lparr> getValue := (\<lambda>r e. (Future 1, e)), isEmpty := (\<lambda>r e. (Future 1, e)) \<rparr>"

text \<open>The accessor reference that \<open>execute\<close> returned, if it returned one.\<close>

fun accessor_of :: "('v, 'x) result \<Rightarrow> ('v, 'x) accessor option" where
  "accessor_of (AccessorReference acc) = Some acc"
| "accessor_of (Plain x) = None"

section \<open>The runtimes of the tools object\<close>

text \<open>
  A runtime, as far as the harness is concerned: its mode and the service registered as
  \<open>opcode_executor\<close>. Runtimes are objects with identity: they live in a heap, and a
  runtime is referred to by its address there.
\<close>

datatype executor = OpcodeExecutor | AsyncOpcodeExecutor

record runtime =
  mode :: string
  opcode_executor :: executor

record host =
  runtimes :: "runtime list"

datatype js_error = TypeError | Error string

text \<open>
  Modelled from the spec: \<open>runtimeFactory.create(mode)\<close> of the runtime library
  (section 6: \<open>runtimeFactory.create(mode) -> Runtime\<close>): a new runtime of that mode, with
  the library's own opcode executor.
\<close>

definition runtimeFactory_create :: "string \<Rightarrow> host \<Rightarrow> nat \<times> host" where
  "runtimeFactory_create m h =
     (length (runtimes h),
      h\<lparr>runtimes := runtimes h @ [\<lparr>mode = m, opcode_executor = OpcodeExecutor\<rparr>]\<rparr>)"

text \<open>
  The optional \<open>initRuntime\<close> hook of the caller (line 51). It is handed the new
  runtime, may create runtimes and install services of its own, and what it returns is
  used as the runtime: \<open>Some a\<close> is the runtime at address \<open>a\<close>, \<open>None\<close> a value that
  is no runtime, such as the \<open>undefined\<close> of a hook without a \<open>return\<close>. Objects of the
  host are not destroyed and the mode of a runtime is fixed when it is created: under a
  hook the runtimes that exist keep their address and their mode, and a runtime that the
  hook returns exists.
\<close>

definition persistent :: "(nat \<Rightarrow> host \<Rightarrow> nat option \<times> host) \<Rightarrow> bool" where
  "persistent f \<longleftrightarrow>
     (\<forall>r h. prefix (map mode (runtimes h)) (map mode (runtimes (snd (f r h)))) \<and>
            (\<forall>a. r < length (runtimes h) \<and> fst (f r h) = Some a
                   \<longrightarrow> a < length (runtimes (snd (f r h)))))"

typedef init_hook = "{f :: nat \<Rightarrow> host \<Rightarrow> nat option \<times> host. persistent f}"
  morphisms apply_hook Abs_init_hook
  by (rule exI [of _ "\<lambda>r h. (Some r, h)"]) (simp add: persistent_def)

text \<open>Lines 48-52.\<close>

definition createRuntime :: "init_hook option \<Rightarrow> string \<Rightarrow> host \<Rightarrow> nat option \<times> host" where
  "createRuntime initRuntime m h =
     (case runtimeFactory_create m h of (runtime, h1) \<Rightarrow>
        (case initRuntime of
           Some f \<Rightarrow> apply_hook f runtime h1
         | None \<Rightarrow> (Some runtime, h1)))"

definition createAsyncRuntime :: "init_hook option \<Rightarrow> host \<Rightarrow> nat option \<times> host" where
  "createAsyncRuntime initRuntime = createRuntime initRuntime ''async''"

definition createPsyncRuntime :: "init_hook option \<Rightarrow> host \<Rightarrow> nat option \<times> host" where
  "createPsyncRuntime initRuntime = createRuntime initRuntime ''psync''"

definition createSyncRuntime :: "init_hook option \<Rightarrow> host \<Rightarrow> nat option \<times> host" where
  "createSyncRuntime initRuntime = createRuntime initRuntime ''sync''"

text \<open>
  Modelled from the spec: \<open>Runtime.install(serviceOverrides)\<close> of the runtime library
  (sections 4.2 and 6), for the one service group the harness installs: the service
  \<open>opcode_executor\<close> of that runtime is replaced. Calling \<open>install\<close> on something that is
  no runtime is a \<open>TypeError\<close>.
\<close>

definition runtime_install :: "nat option \<Rightarrow> executor \<Rightarrow> host \<Rightarrow> js_error + host" where
  "runtime_install runtime e h =
     (case runtime of
        None \<Rightarrow> Inl TypeError
      | Some r \<Rightarrow>
          if r < length (runtimes h)
          then Inr (h\<lparr>runtimes := (runtimes h)[r := (runtimes h ! r)\<lparr>opcode_executor := e\<rparr>]\<rparr>)
          else Inl TypeError)"

definition installForcedAsyncOpcodeHook :: "nat option \<Rightarrow> host \<Rightarrow> js_error + host" where
  "installForcedAsyncOpcodeHook runtime h = runtime_install runtime AsyncOpcodeExecutor h"

text \<open>The third argument of the constructor: left out, a boolean, or any other value.\<close>

datatype flag = FlagUndefined | FlagBoolean bool | FlagOther

record tools =
  asyncRuntime :: "nat option"
  psyncRuntime :: "nat option"
  syncRuntime :: "nat option"

text \<open>Lines 219-221: the three shared runtimes, created in this order.\<close>

definition shared_runtimes :: "init_hook option \<Rightarrow> host \<Rightarrow> tools \<times> host" where
  "shared_runtimes initRuntime h =
     (case createAsyncRuntime initRuntime h of (a, h1) \<Rightarrow>
      case createPsyncRuntime initRuntime h1 of (p, h2) \<Rightarrow>
      case createSyncRuntime initRuntime h2 of (s, h3) \<Rightarrow>
        (\<lparr>asyncRuntime = a, psyncRuntime = p, syncRuntime = s\<rparr>, h3))"

text \<open>The constructor (lines 30-338), as far as the runtimes go.\<close>

definition createIntegrationTools ::
  "init_hook option \<Rightarrow> flag \<Rightarrow> host \<Rightarrow> js_error + tools \<times> host" where
  "createIntegrationTools initRuntime forceOpcodesAsync h =
     (case shared_runtimes initRuntime h of (t, h3) \<Rightarrow>
        if forceOpcodesAsync \<noteq> FlagBoolean False then
          (case installForcedAsyncOpcodeHook (asyncRuntime t) h3 of
             Inl e \<Rightarrow> Inl e
           | Inr h4 \<Rightarrow> Inr (t, h4))
        else Inr (t, h3))"


subsection \<open>Hooks to evaluate the theorems on\<close>

text \<open>
  A hook that creates a runtime of its own and returns the one it was handed; a hook
  that returns the runtime at address 0, whichever it is handed; and a hook without a
  \<open>return\<close>.
\<close>

definition creating_another :: init_hook where
  "creating_another = Abs_init_hook (\<lambda>r h. (Some r, snd (runtimeFactory_create ''sync'' h)))"

definition returning_the_first :: init_hook where
  "returning_the_first = Abs_init_hook (\<lambda>r h. (Some 0, h))"

definition returning_nothing :: init_hook where
  "returning_nothing = Abs_init_hook (\<lambda>r h. (None, h))"

section \<open>The stack normaliser\<close>

subsection \<open>Regular expressions of the host, by backtracking\<close>

text \<open>
  The part of the host's regular expressions that \<open>normaliseStack\<close> uses: literals, the
  classes \<open>.\<close>, \<open>\d\<close>, \<open>[...]\<close> and \<open>[^...]\<close>, \<open>^\<close> under the \<open>m\<close> flag, sequence,
  alternation, the greedy and the lazy quantifiers, and numbered capturing groups. A
  non-capturing group is its body. Strings are lists of 8-bit characters, so the only line
  terminators are CR and LF.
\<close>

datatype cclass = Dot | Digit | OneOf "char list" | NoneOf "char list"

datatype regex =
    Lit string
  | Cls cclass
  | Bol
  | Seq regex regex
  | Alt regex regex
  | Opt regex
  | Star regex
  | LazyStar regex
  | Group nat regex

text \<open>\<open>r+\<close> is \<open>r\<close> followed by \<open>r*\<close>, and \<open>r+?\<close> is \<open>r\<close> followed by \<open>r*?\<close>.\<close>

definition Rep1 :: "regex \<Rightarrow> regex" where
  "Rep1 r = Seq r (Star r)"

definition LazyRep1 :: "regex \<Rightarrow> regex" where
  "LazyRep1 r = Seq r (LazyStar r)"

fun seq :: "regex list \<Rightarrow> regex" where
  "seq [] = Lit []"
| "seq [r] = r"
| "seq (r # rs) = Seq r (seq rs)"

definition CR :: char where
  "CR = CHR 0x0D"

definition LF :: char where
  "LF = CHR 0x0A"

definition line_terminator :: "char \<Rightarrow> bool" where
  "line_terminator x \<longleftrightarrow> x = LF \<or> x = CR"

definition digit :: "char \<Rightarrow> bool" where
  "digit x \<longleftrightarrow> x \<in> set ''0123456789''"

fun in_class :: "cclass \<Rightarrow> char \<Rightarrow> bool" where
  "in_class Dot x = (\<not> line_terminator x)"
| "in_class Digit x = digit x"
| "in_class (OneOf xs) x = (x \<in> set xs)"
| "in_class (NoneOf xs) x = (x \<notin> set xs)"

text \<open>
  A state of the matcher: the character before the current position (none at the start
  of the input), the input from the current position on, and the captures so far, the
  latest first.
\<close>

type_synonym captures = "(nat \<times> string) list"

type_synonym mstate = "char option \<times> string \<times> captures"

fun strip_prefix :: "string \<Rightarrow> char option \<Rightarrow> string \<Rightarrow> (char option \<times> string) option" where
  "strip_prefix [] p s = Some (p, s)"
| "strip_prefix (x # xs) p [] = None"
| "strip_prefix (x # xs) p (y # ys) = (if x = y then strip_prefix xs (Some y) ys else None)"

text \<open>
  \<open>ms r st\<close> lists the states in which a match of \<open>r\<close> from \<open>st\<close> can end, in the order
  in which backtracking tries them: a greedy quantifier tries one more repetition before
  it tries to stop, a lazy one the other way round, an alternation its left branch first.
  As in the host, a repetition of a quantifier that consumes nothing is not taken.
\<close>

fun ms :: "regex \<Rightarrow> mstate \<Rightarrow> mstate list" where
  "ms (Lit l) (p, s, c) =
     (case strip_prefix l p s of None \<Rightarrow> [] | Some (p', s') \<Rightarrow> [(p', s', c)])"
| "ms (Cls k) (p, s, c) =
     (case s of [] \<Rightarrow> [] | x # xs \<Rightarrow> if in_class k x then [(Some x, xs, c)] else [])"
| "ms Bol (p, s, c) =
     (case p of None \<Rightarrow> [(p, s, c)]
      | Some x \<Rightarrow> if line_terminator x then [(p, s, c)] else [])"
| "ms (Seq a b) st = concat (map (ms b) (ms a st))"
| "ms (Alt a b) st = ms a st @ ms b st"
| "ms (Opt a) st =
     filter (\<lambda>st'. length (fst (snd st')) < length (fst (snd st))) (ms a st) @ [st]"
| "ms (Star a) st =
     concat (map (\<lambda>st'. if length (fst (snd st')) < length (fst (snd st))
                          then ms (Star a) st' else [])
                 (ms a st)) @ [st]"
| "ms (LazyStar a) st =
     st # concat (map (\<lambda>st'. if length (fst (snd st')) < length (fst (snd st))
                               then ms (LazyStar a) st' else [])
                      (ms a st))"
| "ms (Group n a) (p, s, c) =
     map (\<lambda>(p', s', c'). (p', s', (n, take (length s - length s') s) # c')) (ms a (p, s, c))"

text \<open>
  \<open>String.prototype.replace\<close> with a global regular expression first collects the
  successive matches, each searched from where the previous one ended (one character
  further after an empty match), the first way of matching at the leftmost position
  being the match; then it replaces them from left to right. \<open>scan\<close> is the first step:
  the input cut into the characters that are copied and the matches, each with its
  captures.
\<close>

datatype segment = Copied char | Matched captures

fun scan :: "regex \<Rightarrow> char option \<Rightarrow> string \<Rightarrow> segment list" where
  "scan r p s =
     (case ms r (p, s, []) of
        (p', s', c) # _ \<Rightarrow>
          if length s' < length s then Matched c # scan r p' s'
          else Matched c # (case s of [] \<Rightarrow> [] | x # xs \<Rightarrow> Copied x # scan r (Some x) xs)
      | [] \<Rightarrow> (case s of [] \<Rightarrow> [] | x # xs \<Rightarrow> Copied x # scan r (Some x) xs))"

text \<open>\<open>$n\<close> in a replacement, or the \<open>n\<close>-th argument of a replacer: empty when the group did not take part.\<close>

definition capture :: "captures \<Rightarrow> nat \<Rightarrow> string" where
  "capture c n = (case map_of c n of None \<Rightarrow> [] | Some x \<Rightarrow> x)"

text \<open>The second step, with a replacement pattern and with a replacer function that may throw.\<close>

fun replace_template :: "(captures \<Rightarrow> string) \<Rightarrow> segment list \<Rightarrow> string" where
  "replace_template t [] = []"
| "replace_template t (Copied x # segs) = x # replace_template t segs"
| "replace_template t (Matched c # segs) = t c @ replace_template t segs"

fun replace_callback ::
  "(captures \<Rightarrow> js_error + string) \<Rightarrow> segment list \<Rightarrow> js_error + string" where
  "replace_callback f [] = Inr []"
| "replace_callback f (Copied x # segs) =
     (case replace_callback f segs of Inl e \<Rightarrow> Inl e | Inr t \<Rightarrow> Inr (x # t))"
| "replace_callback f (Matched c # segs) =
     (case f c of
        Inl e \<Rightarrow> Inl e
      | Inr rep \<Rightarrow>
          (case replace_callback f segs of Inl e \<Rightarrow> Inl e | Inr t \<Rightarrow> Inr (rep @ t)))"

subsection \<open>normaliseStack (lines 270-320)\<close>

text \<open>
  What \<open>originalPositionFor\<close> of the source-map decoder returns: each field is a value or
  \<open>null\<close>.
\<close>

record mapped_position =
  source :: "string option"
  line :: "nat option"
  column :: "nat option"

text \<open>An entry of \<open>moduleDataMap\<close> (line 124).\<close>

record 'm module_data =
  sourceMapGenerator :: 'm
  path :: "string option"

text \<open>
  The numbers of the host are IEEE 754 doubles. Those that arise here are the integers
  that a double holds exactly and the two infinities. \<open>nearest_double\<close> rounds an integer
  to the nearest of them, a tie to the one with the even significand: an integer below
  \<open>2\<^sup>5\<^sup>3\<close> in magnitude is itself, a larger one keeps its 53 leading bits, and one
  that rounds to \<open>2\<^sup>1\<^sup>0\<^sup>2\<^sup>4\<close> or more is infinite.
\<close>

datatype number = Finite int | PlusInfinity | MinusInfinity

fun bit_length :: "nat \<Rightarrow> nat" where
  "bit_length n = (if n = 0 then 0 else Suc (bit_length (n div 2)))"

definition nearest_double :: "int \<Rightarrow> number" where
  "nearest_double i =
     (let m = nat \<bar>i\<bar> in
      if m < 2 ^ 53 then Finite i
      else
        let e = bit_length m - 53; q = m div 2 ^ e; r = m mod 2 ^ e;
            q' = (if 2 ^ (e - 1) < r \<or> (r = 2 ^ (e - 1) \<and> odd q) then q + 1 else q)
        in if 2 ^ 1024 \<le> q' * 2 ^ e
           then (if 0 < i then PlusInfinity else MinusInfinity)
           else Finite (sgn i * int (q' * 2 ^ e)))"

text \<open>
  A string of decimal digits taken as a number (\<open>line - ...\<close> and \<open>column * 1\<close> coerce
  the captured strings); the difference of a number and an integer, rounded as the
  host rounds it; and a number or \<open>null\<close> of the decoder as a string.
\<close>

definition decimal :: "string \<Rightarrow> nat" where
  "decimal ds = foldl (\<lambda>n x. 10 * n + (of_char x - 48)) 0 ds"

definition to_number :: "string \<Rightarrow> number" where
  "to_number ds = nearest_double (int (decimal ds))"

fun subtract :: "number \<Rightarrow> int \<Rightarrow> number" where
  "subtract (Finite a) b = nearest_double (a - b)"
| "subtract PlusInfinity b = PlusInfinity"
| "subtract MinusInfinity b = MinusInfinity"

fun digits_of :: "nat \<Rightarrow> string" where
  "digits_of n =
     (if n < 10 then [char_of (48 + n)]
      else digits_of (n div 10) @ [char_of (48 + n mod 10)])"

definition to_string :: "nat option \<Rightarrow> string" where
  "to_string v = (case v of None \<Rightarrow> ''null'' | Some n \<Rightarrow> digits_of n)"

definition text_of :: "string option \<Rightarrow> string" where
  "text_of v = (case v of None \<Rightarrow> ''null'' | Some s \<Rightarrow> s)"

text \<open>
  What the harness takes from its environment: the directory of the test runner
  (line 15), the resolved path of the runtime library (line 32), the line offset of
  evaluated code (lines 226-230), an integer, and the source-map decoder, which belongs
  to the \<open>source-map\<close> library: given the source map and a generated line and column,
  \<open>originalPositionFor\<close> returns a position or throws.
\<close>

record 'm environment =
  mochaPath :: string
  resolvedPHPCorePath :: string
  errorStackLineOffset :: int
  originalPositionFor :: "'m \<Rightarrow> number \<times> number \<Rightarrow> js_error + mapped_position"

text \<open>
  Line 287:
  \<^verbatim>\<open>/\(eval at transpile \(.*\/phptest\/src\/createIntegrationTools\.js:\d+:\d+\), <anonymous>:(\d+):(\d+)\)/g\<close>
\<close>

definition transpiled_frame :: regex where
  "transpiled_frame =
     seq [Lit ''(eval at transpile ('', Star (Cls Dot),
          Lit ''/phptest/src/createIntegrationTools.js:'', Rep1 (Cls Digit), Lit '':'',
          Rep1 (Cls Digit), Lit ''), <anonymous>:'', Group 1 (Rep1 (Cls Digit)), Lit '':'',
          Group 2 (Rep1 (Cls Digit)), Lit '')'']"

text \<open>
  The replacer of lines 288-302: the argument of \<open>originalPositionFor\<close> (lines 289-294),
  and the replacer itself, which throws what the decoder throws.
\<close>

definition generated_position :: "'m environment \<Rightarrow> captures \<Rightarrow> number \<times> number" where
  "generated_position env c =
     (subtract (to_number (capture c 1)) (errorStackLineOffset env), to_number (capture c 2))"

definition map_frame :: "'m environment \<Rightarrow> 'm \<Rightarrow> captures \<Rightarrow> js_error + string" where
  "map_frame env sourceMap c =
     (case originalPositionFor env sourceMap (generated_position env c) of
        Inl e \<Rightarrow> Inl e
      | Inr mappedPosition \<Rightarrow>
          if line mappedPosition = None \<and> column mappedPosition = None
          then Inl (Error ''Stack line in evaluated PHP code could not be mapped back to PHP source'')
          else Inr (''('' @ text_of (source mappedPosition) @ '':''
                      @ to_string (line mappedPosition) @ '':''
                      @ to_string (column mappedPosition) @ '')''))"

text \<open>
  Line 306: \<^verbatim>\<open>new RegExp('^(.*)' + escapeRegex(mochaPath) + '(.*:)\\d+:\\d+', 'gm')\<close>;
  the escaped path matches the path itself.
\<close>

definition mocha_frame :: "string \<Rightarrow> regex" where
  "mocha_frame mp =
     seq [Bol, Group 1 (Star (Cls Dot)), Lit mp, Group 2 (Seq (Star (Cls Dot)) (Lit '':'')),
          Rep1 (Cls Digit), Lit '':'', Rep1 (Cls Digit)]"

text \<open>Line 308: \<^verbatim>\<open>/(?:(?:.*\/path\/to\/mocha.*)([\r\n]*))+/mg\<close>\<close>

definition mocha_frames :: regex where
  "mocha_frames =
     Rep1 (Seq (seq [Star (Cls Dot), Lit ''/path/to/mocha'', Star (Cls Dot)])
               (Group 1 (Star (Cls (OneOf [CR, LF])))))"

text \<open>
  Line 311:
  \<^verbatim>\<open>/^(?:([^/(]+?\()([^/]+?)\.js|(.*?)(?:node:)?internal\/(.*?)(?:\.js)?):\d+:\d+/gm\<close>
\<close>

definition internal_frame :: regex where
  "internal_frame =
     seq [Bol,
          Alt (seq [Group 1 (Seq (LazyRep1 (Cls (NoneOf ''/(''))) (Lit ''('')),
                    Group 2 (LazyRep1 (Cls (NoneOf ''/''))), Lit ''.js''])
              (seq [Group 3 (LazyStar (Cls Dot)), Opt (Lit ''node:''), Lit ''internal/'',
                    Group 4 (LazyStar (Cls Dot)), Opt (Lit ''.js'')]),
          Lit '':'', Rep1 (Cls Digit), Lit '':'', Rep1 (Cls Digit)]"

text \<open>Line 313: \<^verbatim>\<open>/(?:(?:.*\/path\/to\/internal.*)([\r\n]*))+/mg\<close>\<close>

definition internal_frames :: regex where
  "internal_frames =
     Rep1 (Seq (seq [Star (Cls Dot), Lit ''/path/to/internal'', Star (Cls Dot)])
               (Group 1 (Star (Cls (OneOf [CR, LF])))))"

text \<open>Lines 305-308, 310-313 and 315-316.\<close>

definition normaliseMocha :: "string \<Rightarrow> string \<Rightarrow> string" where
  "normaliseMocha mp stack =
     (let stack = replace_template
                    (\<lambda>c. capture c 1 @ ''/path/to/mocha'' @ capture c 2 @ ''??:??'')
                    (scan (mocha_frame mp) None stack)
      in replace_template (\<lambda>c. ''    at [Mocha internals]'' @ capture c 1)
           (scan mocha_frames None stack))"

definition normaliseInternals :: "string \<Rightarrow> string" where
  "normaliseInternals stack =
     (let stack = replace_template
                    (\<lambda>c. capture c 1 @ capture c 3 @ ''/path/to/internal/'' @ capture c 2
                           @ capture c 4 @ '':??:??'')
                    (scan internal_frame None stack)
      in replace_template (\<lambda>c. ''    at [Node.js internals]'' @ capture c 1)
           (scan internal_frames None stack))"

definition normalisePHPCore :: "string \<Rightarrow> string \<Rightarrow> string" where
  "normalisePHPCore corePath stack =
     replace_template (\<lambda>c. ''/path/to/phpcore'') (scan (Lit corePath) None stack)"

text \<open>
  How a call ends: it throws, or it returns a promise that is rejected or resolved.
\<close>

datatype 'a completion = Threw js_error | RejectedWith js_error | ResolvedWith 'a

text \<open>The stack once its transpiled frames are mapped (lines 284-303).\<close>

definition source_mapped :: "'m environment \<Rightarrow> 'm module_data \<Rightarrow> string \<Rightarrow> js_error + string" where
  "source_mapped env moduleData stack =
     replace_callback (map_frame env (sourceMapGenerator moduleData))
       (scan transpiled_frame None stack)"

definition normaliseStack ::
  "'m environment \<Rightarrow> (nat \<rightharpoonup> 'm module_data) \<Rightarrow> string \<Rightarrow> nat \<Rightarrow> string completion" where
  "normaliseStack env moduleDataMap stack module =
     (case moduleDataMap module of
        None \<Rightarrow>
          Threw (Error (''Test harness error: module data map does not contain data for this module - ''
                        @ ''did you forget to set options.sourceMap?''))
      | Some moduleData \<Rightarrow>
          (case source_mapped env moduleData stack of
             Inl e \<Rightarrow> RejectedWith e
           | Inr stack \<Rightarrow>
               ResolvedWith (normalisePHPCore (resolvedPHPCorePath env)
                              (normaliseInternals (normaliseMocha (mochaPath env) stack)))))"


subsection \<open>Lines and runs of test-runner frames\<close>

definition terminator_free :: "string \<Rightarrow> bool" where
  "terminator_free u \<longleftrightarrow> list_all (\<lambda>x. \<not> line_terminator x) u"

text \<open>A line ending is a string of \<open>[\r\n]*\<close>; a number is a string of \<open>\d+\<close>.\<close>

definition line_ending :: "string \<Rightarrow> bool" where
  "line_ending e \<longleftrightarrow> list_all line_terminator e"

definition digits :: "string \<Rightarrow> bool" where
  "digits d \<longleftrightarrow> d \<noteq> [] \<and> list_all digit d"

text \<open>
  A frame of the test runner: a line in which the path of the test runner is followed,
  after any text, by \<open>:line:column\<close>.
\<close>

definition mocha_line :: "string \<Rightarrow> string \<Rightarrow> bool" where
  "mocha_line mp f \<longleftrightarrow>
     terminator_free f \<and>
     (\<exists>a b d1 d2 c. f = a @ mp @ b @ '':'' @ d1 @ '':'' @ d2 @ c \<and> digits d1 \<and> digits d2)"

text \<open>The text of a list of lines, each with its line ending.\<close>

definition lines_text :: "(string \<times> string) list \<Rightarrow> string" where
  "lines_text ls = concat (map (\<lambda>(f, e). f @ e) ls)"

text \<open>
  The character before a position, after the text \<open>u\<close> has been read from a position
  whose previous character was \<open>p\<close>.
\<close>

definition last_of :: "char option \<Rightarrow> string \<Rightarrow> char option" where
  "last_of p u = (if u = [] then p else Some (last u))"

definition at_line_start :: "char option \<Rightarrow> bool" where
  "at_line_start p \<longleftrightarrow> (case p of None \<Rightarrow> True | Some x \<Rightarrow> line_terminator x)"

definition first_line :: "string \<Rightarrow> string" where
  "first_line s = takeWhile (\<lambda>x. \<not> line_terminator x) s"

text \<open>Regular expressions that cannot read a line terminator.\<close>

fun line_local :: "regex \<Rightarrow> bool" where
  "line_local (Lit l) = terminator_free l"
| "line_local (Cls Dot) = True"
| "line_local (Cls Digit) = True"
| "line_local (Cls (OneOf xs)) = terminator_free xs"
| "line_local (Cls (NoneOf xs)) = False"
| "line_local Bol = True"
| "line_local (Seq a b) = (line_local a \<and> line_local b)"
| "line_local (Alt a b) = (line_local a \<and> line_local b)"
| "line_local (Opt a) = line_local a"
| "line_local (Star a) = line_local a"
| "line_local (LazyStar a) = line_local a"
| "line_local (Group n a) = line_local a"

definition captures_terminator_free :: "captures \<Rightarrow> bool" where
  "captures_terminator_free c \<longleftrightarrow> list_all (\<lambda>(n, x). terminator_free x) c"

subsection \<open>Stacks to evaluate the theorems on\<close>

text \<open>
  An environment whose offset is 2 and whose decoder maps the generated line 1 only
  (line 3 of the evaluated code); like the decoder of the \<open>source-map\<close> library, it throws
  when it is asked for a line below 1. A registry with one module. Two transpiled frames
  on two lines, the first of which can be mapped; and two more, the first of which, on
  line 2 of the evaluated code, comes to the generated line 0.
\<close>

fun below_one :: "number \<Rightarrow> bool" where
  "below_one (Finite i) = (i < 1)"
| "below_one PlusInfinity = False"
| "below_one MinusInfinity = True"

fun first_line_decoder :: "unit \<Rightarrow> number \<times> number \<Rightarrow> js_error + mapped_position" where
  "first_line_decoder m (l, c) =
     (if below_one l then Inl (Error ''Line numbers must be >= 1'')
      else if l = Finite 1 then Inr \<lparr>source = Some ''a.php'', line = Some 1, column = Some 0\<rparr>
      else Inr \<lparr>source = None, line = None, column = None\<rparr>)"

definition first_line_only :: "unit environment" where
  "first_line_only =
     \<lparr> mochaPath = ''/m'', resolvedPHPCorePath = ''/c'', errorStackLineOffset = 2,
       originalPositionFor = first_line_decoder \<rparr>"


definition two_frames :: string where
  "two_frames =
     ''(eval at transpile (/phptest/src/createIntegrationTools.js:1:1), <anonymous>:3:4)'' @ [LF] @
     ''(eval at transpile (/phptest/src/createIntegrationTools.js:1:1), <anonymous>:5:6)''"


section \<open>Theorems\<close>

subsection \<open>Futures, continuations and ticks\<close>

lemma cell_at_settle:
  "n < length (futures w) \<Longrightarrow>
   cell_at (settle n s w) m = (if m = n \<or> cell_at w m = Awaits n then Holds s else cell_at w m)"
  by (simp add: cell_at_def settle_def nth_list_update)

lemma cell_at_await:
  "n < length (futures w) \<Longrightarrow>
   cell_at (await n r w) m = (if m = n \<or> cell_at w m = Awaits n then Awaits r else cell_at w m)"
  by (simp add: cell_at_def await_def nth_list_update)

lemma length_futures_resolve [simp]: "length (futures (resolve n x w)) = length (futures w)"
  by (simp add: resolve_def settle_def await_def split: jsval.split)

lemma queue_resolve [simp]: "queue (resolve n x w) = queue w"
  by (simp add: resolve_def settle_def await_def split: jsval.split)

lemma ext_resolve [simp]: "ext (resolve n x w) = ext w"
  by (simp add: resolve_def settle_def await_def split: jsval.split)

lemma cell_at_resolve_settled:
  "cell_at w m = Holds s \<Longrightarrow> s \<noteq> Pending \<Longrightarrow> cell_at (resolve n x w) m = Holds s"
  by (auto simp add: resolve_def cell_at_settle cell_at_await split: jsval.split)
     (auto simp add: cell_at_def)

lemma cell_at_resolve_other:
  "cell_at w m = Holds Pending \<Longrightarrow> m \<noteq> n \<Longrightarrow> cell_at (resolve n x w) m = Holds Pending"
  by (auto simp add: resolve_def cell_at_settle cell_at_await split: jsval.split)

lemma futureState_resolve_settled:
  "futureState w m \<noteq> Pending \<Longrightarrow> futureState (resolve n x w) m = futureState w m"
  by (cases "cell_at w m") (simp_all add: futureState_def cell_at_resolve_settled)

lemma resolve_eq:
  assumes "cell_at w n = Holds Pending" and "n < length (futures w)"
  shows "resolve n x w =
     (case x of
        Future b \<Rightarrow>
          if futureState w b = Pending then await n (root w b) w
          else settle n (futureState w b) w
      | _ \<Rightarrow> settle n (Fulfilled x) w)"
  using assms by (simp add: resolve_def cell_at_def)

lemma resolve_ignored:
  "cell_at w n \<noteq> Holds Pending \<Longrightarrow> resolve n x w = w"
  by (auto simp add: resolve_def cell_at_def)

lemma futureState_resolve_own:
  assumes "cell_at w n = Holds Pending" and "n < length (futures w)" and "outcome w x \<noteq> Pending"
  shows "futureState (resolve n x w) n = outcome w x"
  using assms(2,3) unfolding resolve_eq [OF assms(1,2)]
  by (cases x) (simp_all add: outcome_def futureState_def cell_at_settle)

lemma linked_resolve_own:
  assumes "cell_at w n = Holds Pending" and "n < length (futures w)"
  shows "linked (resolve n x w) n x"
proof (cases x)
  case (Future b)
  show ?thesis
  proof (cases "futureState w b = Pending")
    case True
    then show ?thesis
      using assms unfolding resolve_eq [OF assms] Future
      by (auto simp add: linked_def follows_def outcome_def futureState_def root_def
          cell_at_await split: cell.splits)
  next
    case False
    then show ?thesis
      using assms unfolding resolve_eq [OF assms] Future
      by (auto simp add: linked_def follows_def outcome_def futureState_def root_def
          cell_at_settle split: cell.splits)
  qed
qed (use assms in \<open>simp_all add: resolve_eq [OF assms] linked_def follows_def outcome_def
      futureState_def cell_at_settle\<close>)

lemma linked_resolve:
  assumes "linked w n x"
  shows "linked (resolve m y w) n x"
proof (cases "cell_at w m = Holds Pending \<and> m < length (futures w)")
  case False
  then have "resolve m y w = w"
    by (auto simp add: resolve_def cell_at_def)
  with assms show ?thesis by simp
next
  case True
  then have m: "cell_at w m = Holds Pending" "m < length (futures w)" by simp_all
  have s: "linked (settle m s w) n x" if "s \<noteq> Pending" for s
    using assms m that
    by (cases x)
       (auto simp add: linked_def follows_def outcome_def futureState_def root_def
          cell_at_settle split: cell.splits)
  have a: "linked (await m r w) n x" for r
    using assms m
    by (cases x)
       (auto simp add: linked_def follows_def outcome_def futureState_def root_def
          cell_at_await split: cell.splits)
  show ?thesis
    unfolding resolve_eq [OF m]
    by (cases y) (simp_all add: s a)
qed

lemma call_simps [simp]:
  "futures (snd (call m w)) = futures w"
  "queue (snd (call m w)) = queue w"
  "ext (snd (call m w)) = snd (m (ext w))"
  "fst (call m w) = fst (m (ext w))"
  by (simp_all add: call_def split: prod.split)

lemma same_futures:
  assumes "futures w' = futures w"
  shows "cell_at w' n = cell_at w n" and "futureState w' n = futureState w n"
    and "outcome w' x = outcome w x" and "root w' n = root w n"
    and "follows w' n x = follows w n x" and "linked w' n x = linked w n x"
proof -
  show c: "cell_at w' n = cell_at w n" for n
    using assms by (simp add: cell_at_def)
  show f: "futureState w' n = futureState w n" for n
    by (simp add: futureState_def c)
  show o: "outcome w' x = outcome w x"
    by (simp add: outcome_def f split: jsval.split)
  show r: "root w' n = root w n" for n
    by (simp add: root_def c)
  show "follows w' n x = follows w n x"
    by (simp add: follows_def f o)
  then show "linked w' n x = linked w n x"
    by (simp add: linked_def f r split: jsval.split)
qed

lemma queue_update_simps [simp]:
  "cell_at (w\<lparr>queue := q\<rparr>) n = cell_at w n"
  "futureState (w\<lparr>queue := q\<rparr>) n = futureState w n"
  "outcome (w\<lparr>queue := q\<rparr>) x = outcome w x"
  "linked (w\<lparr>queue := q\<rparr>) n x = linked w n x"
  by (simp_all add: same_futures [where w = w and w' = "w\<lparr>queue := q\<rparr>"])

lemma after_call_simps [simp]:
  "cell_at (snd (call m w)) n = cell_at w n"
  "futureState (snd (call m w)) n = futureState w n"
  "outcome (snd (call m w)) x = outcome w x"
  "linked (snd (call m w)) n x = linked w n x"
  by (simp_all add: same_futures [where w = w and w' = "snd (call m w)"])

lemma run_task_frame [simp]:
  "length (futures (run_task core t w)) = length (futures w)"
  "queue (run_task core t w) = queue w"
  by (cases t; simp add: split_beta)+

lemma run_task_other:
  assumes "task_target t \<noteq> m" and "cell_at w m = Holds Pending"
  shows "cell_at (run_task core t w) m = Holds Pending"
proof (cases t)
  case (ResolveWith n x)
  with assms show ?thesis by (simp add: cell_at_resolve_other)
next
  case (AssignLater n r v)
  have "cell_at (snd (call (setValue core r v) w)) m = Holds Pending"
    using assms(2) by simp
  with assms(1) AssignLater show ?thesis
    by (simp add: split_beta cell_at_resolve_other)
qed

lemma run_task_settled:
  assumes "futureState w m \<noteq> Pending"
  shows "futureState (run_task core t w) m = futureState w m"
proof (cases t)
  case (ResolveWith n x)
  with assms show ?thesis by (simp add: futureState_resolve_settled)
next
  case (AssignLater n r v)
  have "futureState (snd (call (setValue core r v) w)) m = futureState w m"
    by simp
  with assms AssignLater show ?thesis
    by (simp add: split_beta futureState_resolve_settled)
qed

lemma linked_run_task:
  assumes "linked w n x"
  shows "linked (run_task core t w) n x"
proof (cases t)
  case (ResolveWith m y)
  with assms show ?thesis by (simp add: linked_resolve)
next
  case (AssignLater m r v)
  have "linked (snd (call (setValue core r v) w)) n x"
    using assms by simp
  with AssignLater show ?thesis
    by (simp add: split_beta linked_resolve)
qed

lemma tick_settled:
  "futureState w m \<noteq> Pending \<Longrightarrow> futureState (tick core w) m = futureState w m"
  by (simp add: tick_def run_task_settled split: list.split)

lemma ticks_settled:
  "futureState w m \<noteq> Pending \<Longrightarrow> futureState (ticks k core w) m = futureState w m"
  by (induction k arbitrary: w) (simp_all add: tick_settled)

lemma linked_tick: "linked w n x \<Longrightarrow> linked (tick core w) n x"
  by (simp add: tick_def linked_run_task split: list.split)

lemma linked_ticks: "linked w n x \<Longrightarrow> linked (ticks k core w) n x"
  by (induction k arbitrary: w) (simp_all add: linked_tick)

lemma linked_from_then_on:
  assumes "linked w n x"
  shows "follows (ticks k core (w\<lparr>queue := ts\<rparr>)) n x"
proof -
  have "linked (w\<lparr>queue := ts\<rparr>) n x"
    using assms by simp
  then have "linked (ticks k core (w\<lparr>queue := ts\<rparr>)) n x"
    by (rule linked_ticks)
  then show ?thesis by (simp add: linked_def)
qed

lemma ticks_add: "ticks (a + b) core w = ticks b core (ticks a core w)"
  by (induction a arbitrary: w) simp_all

lemma outcome_ticks:
  "outcome w x \<noteq> Pending \<Longrightarrow> outcome (ticks k core w) x = outcome w x"
  by (cases x) (simp_all add: outcome_def ticks_settled)

lemma ticks_ahead:
  assumes "queue w = ts @ rest" and "list_all (\<lambda>t. task_target t \<noteq> n) ts" and "k \<le> length ts"
    and "cell_at w n = Holds Pending"
  shows "cell_at (ticks k core w) n = Holds Pending
       \<and> queue (ticks k core w) = drop k ts @ rest
       \<and> length (futures (ticks k core w)) = length (futures w)"
  using assms
proof (induction k arbitrary: w ts)
  case 0
  then show ?case by simp
next
  case (Suc k)
  then obtain t ts' where ts: "ts = t # ts'" by (cases ts) auto
  let ?w = "tick core w"
  from Suc.prems ts have q: "queue ?w = ts' @ rest"
    by (simp add: tick_def)
  have "cell_at (w\<lparr>queue := ts' @ rest\<rparr>) n = Holds Pending"
    using Suc.prems(4) by simp
  with Suc.prems ts have f: "cell_at ?w n = Holds Pending"
    by (simp add: tick_def run_task_other)
  from Suc.prems ts have l: "length (futures ?w) = length (futures w)"
    by (simp add: tick_def)
  from Suc.prems ts have "list_all (\<lambda>t. task_target t \<noteq> n) ts'" and "k \<le> length ts'"
    by simp_all
  from Suc.IH [OF q this f] l ts show ?case by simp
qed

lemma pending_until_own_tick:
  assumes "queue w = ts @ t # rest" and "list_all (\<lambda>t. task_target t \<noteq> n) ts"
    and "k \<le> length ts" and "cell_at w n = Holds Pending"
  shows "futureState (ticks k core w) n = Pending"
  using ticks_ahead [OF assms] by (simp add: futureState_def)

lemma own_tick:
  assumes q: "queue w = ts @ t # rest"
    and ts: "list_all (\<lambda>t. task_target t \<noteq> n) ts"
    and p: "cell_at w n = Holds Pending"
  shows "ticks (Suc (length ts)) core w
           = run_task core t ((ticks (length ts) core w)\<lparr>queue := rest\<rparr>)"
    and "cell_at (ticks (length ts) core w) n = Holds Pending"
    and "length (futures (ticks (length ts) core w)) = length (futures w)"
proof -
  let ?w = "ticks (length ts) core w"
  from ticks_ahead [OF q ts _ p, of "length ts" core]
  have 1: "cell_at ?w n = Holds Pending" and 3: "length (futures ?w) = length (futures w)"
    and 2: "queue ?w = t # rest"
    by simp_all
  show "cell_at ?w n = Holds Pending" by (rule 1)
  show "length (futures ?w) = length (futures w)" by (rule 3)
  have "ticks (Suc (length ts)) core w = tick core ?w"
    using ticks_add [of "length ts" "Suc 0" core w] by simp
  then show "ticks (Suc (length ts)) core w = run_task core t (?w\<lparr>queue := rest\<rparr>)"
    using 2 by (simp add: tick_def)
qed

lemma resolved_on_own_tick:
  assumes q: "queue w = ts @ ResolveWith n x # rest"
    and ts: "list_all (\<lambda>t. task_target t \<noteq> n) ts"
    and p: "cell_at w n = Holds Pending" and a: "n < length (futures w)"
    and o: "outcome w x \<noteq> Pending"
    and k: "length ts < k"
  shows "futureState (ticks k core w) n = outcome w x"
proof -
  let ?w = "ticks (length ts) core w"
  let ?v = "?w\<lparr>queue := rest\<rparr>"
  note own = own_tick [OF q ts p, of core]
  have v: "cell_at ?v n = Holds Pending" "n < length (futures ?v)"
    using own(2,3) a by simp_all
  have "futureState (ticks (Suc (length ts)) core w) n = outcome ?v x"
    unfolding own(1) using v o
    by (simp add: futureState_resolve_own outcome_ticks)
  also have "\<dots> = outcome w x"
    using o by (simp add: outcome_ticks)
  finally have 2: "futureState (ticks (Suc (length ts)) core w) n = outcome w x" .
  from k obtain j where j: "k = Suc (length ts) + j"
    by (metis add_Suc_right add_Suc less_iff_Suc_add)
  have "ticks k core w = ticks j core (ticks (Suc (length ts)) core w)"
    unfolding j ticks_add ..
  with 2 o show ?thesis by (simp add: ticks_settled)
qed

lemma linked_on_own_tick:
  assumes q: "queue w = ts @ ResolveWith n x # rest"
    and ts: "list_all (\<lambda>t. task_target t \<noteq> n) ts"
    and p: "cell_at w n = Holds Pending" and a: "n < length (futures w)"
  shows "linked (ticks (Suc (length ts)) core w) n x"
proof -
  let ?w = "ticks (length ts) core w"
  let ?v = "?w\<lparr>queue := rest\<rparr>"
  note own = own_tick [OF q ts p, of core]
  have v: "cell_at ?v n = Holds Pending" "n < length (futures ?v)"
    using own(2,3) a by simp_all
  show ?thesis
    unfolding own(1) using v by (simp add: linked_resolve_own)
qed

lemma assigned_on_own_tick:
  assumes q: "queue w = ts @ AssignLater n r v # rest"
    and ts: "list_all (\<lambda>t. task_target t \<noteq> n) ts"
    and p: "cell_at w n = Holds Pending" and a: "n < length (futures w)"
  shows "ext (ticks (Suc (length ts)) core w)
           = snd (setValue core r v (ext (ticks (length ts) core w)))"
    and "linked (ticks (Suc (length ts)) core w) n
           (fst (setValue core r v (ext (ticks (length ts) core w))))"
proof -
  let ?w = "ticks (length ts) core w"
  let ?v = "?w\<lparr>queue := rest\<rparr>"
  let ?c = "snd (call (setValue core r v) ?v)"
  note own = own_tick [OF q ts p, of core]
  have c: "cell_at ?c n = Holds Pending" "n < length (futures ?c)"
    using own(2,3) a by simp_all
  have e: "ticks (Suc (length ts)) core w
           = resolve n (fst (setValue core r v (ext ?w))) ?c"
    unfolding own(1) by (simp add: split_beta)
  show "ext (ticks (Suc (length ts)) core w) = snd (setValue core r v (ext ?w))"
    unfolding e by simp
  show "linked (ticks (Suc (length ts)) core w) n (fst (setValue core r v (ext ?w)))"
    unfolding e using c by (rule linked_resolve_own)
qed

lemma queue_wf_fresh:
  "queue_wf w \<Longrightarrow> list_all (\<lambda>t. task_target t \<noteq> length (futures w)) (queue w)"
  by (auto simp add: queue_wf_def list_all_iff)

lemma createAsyncPresent_simps [simp]:
  "fst (futureFactory_createAsyncPresent x u) = Future (length (futures u))"
  "futures (snd (futureFactory_createAsyncPresent x u)) = futures u @ [Holds Pending]"
  "queue (snd (futureFactory_createAsyncPresent x u))
     = queue u @ [ResolveWith (length (futures u)) x]"
  "ext (snd (futureFactory_createAsyncPresent x u)) = ext u"
  by (simp_all add: futureFactory_createAsyncPresent_def)

lemma createAsyncMicrotaskFuture_simps [simp]:
  "fst (valueFactory_createAsyncMicrotaskFuture e u) = Future (length (futures u))"
  "futures (snd (valueFactory_createAsyncMicrotaskFuture e u)) = futures u @ [Holds Pending]"
  "queue (snd (valueFactory_createAsyncMicrotaskFuture e u))
     = queue u @ [e (length (futures u))]"
  "ext (snd (valueFactory_createAsyncMicrotaskFuture e u)) = ext u"
  by (simp_all add: valueFactory_createAsyncMicrotaskFuture_def)

lemma valueFactory_createAsyncPresent_eq:
  "valueFactory_createAsyncPresent = futureFactory_createAsyncPresent"
  by (intro ext) (simp add: valueFactory_createAsyncPresent_def futureFactory_createAsyncPresent_def)

lemma fresh_cell:
  assumes "futures u' = futures u @ [Holds Pending]"
  shows "cell_at u' (length (futures u)) = Holds Pending"
    and "length (futures u) < length (futures u')"
    and "outcome u x \<noteq> Pending \<Longrightarrow> outcome u' x = outcome u x"
  using assms
  by (auto simp add: cell_at_def outcome_def futureState_def nth_append
      split: jsval.split if_splits)

lemma completes_later_withI:
  assumes wf: "queue_wf u" and o: "outcome u x \<noteq> Pending"
  shows "completes_later_with core u (futureFactory_createAsyncPresent x u) (outcome u x)"
proof -
  let ?n = "length (futures u)"
  let ?u = "snd (futureFactory_createAsyncPresent x u)"
  have q: "queue ?u = queue u @ ResolveWith ?n x # []" by simp
  have f: "futures ?u = futures u @ [Holds Pending]" by simp
  note fresh = fresh_cell [OF f]
  note ahead = queue_wf_fresh [OF wf]
  have "futureState (ticks k core ?u) ?n = (if k \<le> length (queue u) then Pending else outcome u x)"
    for k
  proof (cases "k \<le> length (queue u)")
    case True
    then show ?thesis
      using pending_until_own_tick [OF q ahead True fresh(1), of core] by simp
  next
    case False
    then have "length (queue u) < k" by simp
    from resolved_on_own_tick [OF q ahead fresh(1,2) _ this, of core] fresh(3) [of x] o False
    show ?thesis by simp
  qed
  then show ?thesis
    by (simp add: completes_later_with_def)
qed

lemma defers_result_call:
  assumes wf: "queue_wf u"
  shows "defers_result core u
           (case call raw u of (v, u') \<Rightarrow> futureFactory_createAsyncPresent v u') raw"
proof -
  obtain v e where r: "raw (ext u) = (v, e)" by (cases "raw (ext u)")
  let ?c = "u\<lparr>ext := e\<rparr>"
  let ?n = "length (futures u)"
  let ?u = "snd (futureFactory_createAsyncPresent v ?c)"
  have c: "call raw u = (v, ?c)" by (simp add: call_def r)
  have q: "queue ?u = queue u @ ResolveWith ?n v # []" by simp
  have f: "futures ?u = futures u @ [Holds Pending]" by simp
  note fresh = fresh_cell(1,2) [OF f]
  note ahead = queue_wf_fresh [OF wf]
  have 1: "futureState (ticks k core ?u) ?n = Pending" if "k \<le> length (queue u)" for k
    using pending_until_own_tick [OF q ahead that fresh(1), of core] .
  have "linked (ticks (Suc (length (queue u))) core ?u) ?n v"
    using linked_on_own_tick [OF q ahead fresh, of core] .
  then have 2: "follows (ticks k core ((ticks (Suc (length (queue u))) core ?u)\<lparr>queue := ts\<rparr>)) ?n v"
    for ts k
    by (rule linked_from_then_on)
  show ?thesis
    unfolding defers_result_def Let_def c r
    using 1 2 by simp
qed

lemma synchronous_passthrough_call: "synchronous_passthrough raw u (call raw u)"
  by (simp add: synchronous_passthrough_def)

lemma synchronous_command_command: "synchronous_command raw u (command raw u)"
  by (simp add: synchronous_command_def command_def split_beta)

lemma assigns_later_microtask:
  assumes wf: "queue_wf u"
  shows "assigns_later core u
           (valueFactory_createAsyncMicrotaskFuture (\<lambda>n. AssignLater n r v) u) r v"
proof -
  let ?n = "length (futures u)"
  let ?u = "snd (valueFactory_createAsyncMicrotaskFuture (\<lambda>n. AssignLater n r v) u)"
  have q: "queue ?u = queue u @ AssignLater ?n r v # []" by simp
  have f: "futures ?u = futures u @ [Holds Pending]" by simp
  note fresh = fresh_cell(1,2) [OF f]
  note ahead = queue_wf_fresh [OF wf]
  have 1: "futureState (ticks k core ?u) ?n = Pending" if "k \<le> length (queue u)" for k
    using pending_until_own_tick [OF q ahead that fresh(1), of core] .
  note own = assigned_on_own_tick [OF q ahead fresh, of core]
  have 2: "follows (ticks k core ((ticks (Suc (length (queue u))) core ?u)\<lparr>queue := ts\<rparr>)) ?n
             (fst (setValue core r v (ext (ticks (length (queue u)) core ?u))))"
    for ts k
    using own(2) by (rule linked_from_then_on)
  show ?thesis
    unfolding assigns_later_def Let_def
    using 1 2 own(1) by simp
qed

lemma execute_reference_like:
  assumes "isTraced opcode" and "handle opcode w = (r, w1)"
    and "instanceofReference r \<or> instanceofVariable r"
  obtains acc where "execute core opcode w = (AccessorReference acc, w1)"
    and "valueGetter acc = (\<lambda>u. case call (getValue core r) u of (v, u') \<Rightarrow>
                             futureFactory_createAsyncPresent v u')"
    and "valueSetter acc = (\<lambda>v. valueFactory_createAsyncMicrotaskFuture (\<lambda>n. AssignLater n r v))"
    and "unsetter acc = (\<lambda>u. case call (unset core r) u of (v, u') \<Rightarrow>
                             futureFactory_createAsyncPresent v u')"
    and "referenceGetter acc = call (getReference core r)"
    and "referenceSetter acc = (\<lambda>x. command (setReference core r x))"
    and "referenceClearer acc = command (clearReference core r)"
    and "definednessGetter acc = call (isDefined core r)"
    and "readablenessGetter acc = call (isReadable core r)"
    and "emptinessGetter acc = (\<lambda>u. case call (isEmpty core r) u of (v, u') \<Rightarrow>
                             futureFactory_createAsyncPresent v u')"
    and "setnessGetter acc = (\<lambda>u. case call (isSet core r) u of (v, u') \<Rightarrow>
                             futureFactory_createAsyncPresent v u')"
    and "referencenessGetter acc = call (isReference core r)"
    and "undefinednessRaiser acc = (\<lambda>u. case call (raiseUndefined core r) u of (v, u') \<Rightarrow>
                             futureFactory_createAsyncPresent v u')"
proof -
  from assms(3) have "\<not> isFuture r" "\<not> instanceofValue r"
    by (cases r; simp)+
  with assms have "\<exists>acc. execute core opcode w = (AccessorReference acc, w1)
    \<and> valueGetter acc = (\<lambda>u. case call (getValue core r) u of (v, u') \<Rightarrow>
                             futureFactory_createAsyncPresent v u')
    \<and> valueSetter acc = (\<lambda>v. valueFactory_createAsyncMicrotaskFuture (\<lambda>n. AssignLater n r v))
    \<and> unsetter acc = (\<lambda>u. case call (unset core r) u of (v, u') \<Rightarrow>
                             futureFactory_createAsyncPresent v u')
    \<and> referenceGetter acc = call (getReference core r)
    \<and> referenceSetter acc = (\<lambda>x. command (setReference core r x))
    \<and> referenceClearer acc = command (clearReference core r)
    \<and> definednessGetter acc = call (isDefined core r)
    \<and> readablenessGetter acc = call (isReadable core r)
    \<and> emptinessGetter acc = (\<lambda>u. case call (isEmpty core r) u of (v, u') \<Rightarrow>
                             futureFactory_createAsyncPresent v u')
    \<and> setnessGetter acc = (\<lambda>u. case call (isSet core r) u of (v, u') \<Rightarrow>
                             futureFactory_createAsyncPresent v u')
    \<and> referencenessGetter acc = call (isReference core r)
    \<and> undefinednessRaiser acc = (\<lambda>u. case call (raiseUndefined core r) u of (v, u') \<Rightarrow>
                             futureFactory_createAsyncPresent v u')"
    by (simp add: execute_def referenceFactory_createAccessor_def
        valueFactory_createAsyncPresent_eq)
  then show thesis using that by blast
qed

lemma busy_world_wf: "queue_wf busy_world"
  by (simp add: queue_wf_def busy_world_def)


subsection \<open>The interceptor\<close>

text \<open>
  C1: a traced opcode whose handler returns a future that is already settled. The
  executor returns a future that did not exist when the handler returned, hence another
  one than the raw result; it is pending on return and after every tick that runs a
  continuation queued earlier, and from the tick after those on it holds the outcome of
  the raw future, fulfilled or rejected alike.
\<close>

theorem C1_settled_future_rewrapped:
  assumes "isTraced opcode" and "handle opcode w = (Future f, w1)"
    and "futureState w1 f \<noteq> Pending" and "queue_wf w1"
  shows "\<exists>n w2. execute core opcode w = (Plain (Future n), w2)
            \<and> length (futures w1) \<le> n \<and> n \<noteq> f
            \<and> completes_later_with core w1 (Future n, w2) (futureState w1 f)"
proof -
  let ?r = "futureFactory_createAsyncPresent (Future f) w1"
  have e: "execute core opcode w = (Plain (fst ?r), snd ?r)"
    using assms by (simp add: execute_def split_beta)
  have f: "f < length (futures w1)"
    using assms(3) by (simp add: futureState_def cell_at_def split: if_splits)
  have o: "outcome w1 (Future f) = futureState w1 f"
    by (simp add: outcome_def)
  have c: "completes_later_with core w1 ?r (futureState w1 f)"
    using completes_later_withI [OF assms(4), where x = "Future f" and core = core] assms(3) o
    by simp
  have n: "fst ?r = Future (length (futures w1))"
    by simp
  show ?thesis
  proof (intro exI conjI)
    show "execute core opcode w = (Plain (Future (length (futures w1))), snd ?r)"
      using e n by simp
    show "length (futures w1) \<le> length (futures w1)" by simp
    show "length (futures w1) \<noteq> f" using f by simp
    show "completes_later_with core w1 (Future (length (futures w1)), snd ?r) (futureState w1 f)"
      using c n by (metis prod.collapse)
  qed
qed


theorem C1_witness:
  "isTraced (returning (Future 0) True) \<and>
   futureState busy_world 0 = Fulfilled (Value 7) \<and> queue_wf busy_world \<and>
   (\<exists>n w2. execute slot_core (returning (Future 0) True) busy_world = (Plain (Future n), w2)
      \<and> length (futures busy_world) \<le> n \<and> n \<noteq> 0
      \<and> completes_later_with slot_core busy_world (Future n, w2) (Fulfilled (Value 7)))"
proof -
  have t: "isTraced (returning (Future 0) True)"
    and h: "handle (returning (Future 0) True) busy_world = (Future 0, busy_world)"
    by (simp_all add: returning_def)
  have s: "futureState busy_world 0 = Fulfilled (Value 7)"
    by (simp add: futureState_def cell_at_def busy_world_def)
  then have p: "futureState busy_world 0 \<noteq> Pending" by simp
  from C1_settled_future_rewrapped [OF t h p busy_world_wf, where core = slot_core]
  show ?thesis using t s busy_world_wf by simp
qed


text \<open>
  C2, as stated, asks that setting the target reference on the accessor returns the same
  data as setting it on the raw result. The callback of lines 187-189 has no \<open>return\<close>:
  on a variable whose \<open>setReference\<close> answers with the variable, the accessor's answers
  with \<open>undefined\<close>.
\<close>

theorem C2_counterexample:
  "isTraced (returning (Variable 0) True) \<and>
   accessor_of (fst (execute slot_core (returning (Variable 0) True) busy_world)) \<noteq> None \<and>
   fst (referenceSetter
          (the (accessor_of (fst (execute slot_core (returning (Variable 0) True) busy_world))))
          (Reference 1) busy_world) = Undefined \<and>
   fst (setReference slot_core (Variable 0) (Reference 1) (ext busy_world)) = Variable 0"
  by (simp add: execute_def returning_def referenceFactory_createAccessor_def command_def
      call_def slot_core_def)


text \<open>
  C2, amended: a traced opcode whose handler returns a reference or a variable. The
  executor returns an accessor reference. Getting the target reference and the
  is-reference check return at once what the raw result returns, with the raw result's
  effect on the runtime, creating no future and queueing nothing. Setting and clearing
  the target reference do the same, except that they return \<open>undefined\<close> whatever the raw
  result returns. Getting the value and unsetting call the raw result at once and return
  a new future that is pending until a later tick and from then on follows what the raw
  capability returned, also when that is a future still pending; setting the value
  returns a new future and performs the assignment itself only on that later tick.
\<close>

theorem C2_structural_synchronous_value_deferred:
  assumes "isTraced opcode" and "handle opcode w = (r, w1)"
    and "instanceofReference r \<or> instanceofVariable r"
  shows "\<exists>acc. execute core opcode w = (AccessorReference acc, w1) \<and>
     (\<forall>u x.
        synchronous_passthrough (getReference core r) u (referenceGetter acc u) \<and>
        synchronous_command (setReference core r x) u (referenceSetter acc x u) \<and>
        synchronous_command (clearReference core r) u (referenceClearer acc u) \<and>
        synchronous_passthrough (isReference core r) u (referencenessGetter acc u)) \<and>
     (\<forall>u v. queue_wf u \<longrightarrow>
        defers_result core u (valueGetter acc u) (getValue core r) \<and>
        assigns_later core u (valueSetter acc v u) r v \<and>
        defers_result core u (unsetter acc u) (unset core r))"
proof (rule execute_reference_like [OF assms, where core = core])
  fix acc
  assume e: "execute core opcode w = (AccessorReference acc, w1)"
    and acc: "valueGetter acc = (\<lambda>u. case call (getValue core r) u of (v, u') \<Rightarrow>
                             futureFactory_createAsyncPresent v u')"
      "valueSetter acc = (\<lambda>v. valueFactory_createAsyncMicrotaskFuture (\<lambda>n. AssignLater n r v))"
      "unsetter acc = (\<lambda>u. case call (unset core r) u of (v, u') \<Rightarrow>
                             futureFactory_createAsyncPresent v u')"
      "referenceGetter acc = call (getReference core r)"
      "referenceSetter acc = (\<lambda>x. command (setReference core r x))"
      "referenceClearer acc = command (clearReference core r)"
      "referencenessGetter acc = call (isReference core r)"
  show ?thesis
  proof (intro exI conjI allI impI)
    show "execute core opcode w = (AccessorReference acc, w1)" by (rule e)
  qed (simp_all only: acc synchronous_passthrough_call synchronous_command_command
        defers_result_call assigns_later_microtask)
qed


theorem C2_witness:
  "isTraced (returning (Variable 0) True) \<and> queue_wf busy_world \<and>
   (\<exists>acc. execute slot_core (returning (Variable 0) True) busy_world
             = (AccessorReference acc, busy_world) \<and>
      referenceGetter acc busy_world = (Variable 0, busy_world) \<and>
      referenceSetter acc (Reference 1) busy_world = (Undefined, busy_world\<lparr>ext := Reference 1\<rparr>) \<and>
      referenceClearer acc busy_world = (Undefined, busy_world\<lparr>ext := Undefined\<rparr>) \<and>
      referencenessGetter acc busy_world = (Boolean False, busy_world) \<and>
      defers_result slot_core busy_world (valueGetter acc busy_world)
        (getValue slot_core (Variable 0)) \<and>
      assigns_later slot_core busy_world (valueSetter acc (Value 9) busy_world)
        (Variable 0) (Value 9) \<and>
      defers_result slot_core busy_world (unsetter acc busy_world)
        (unset slot_core (Variable 0)))"
proof -
  have t: "isTraced (returning (Variable 0) True)"
    and h: "handle (returning (Variable 0) True) busy_world = (Variable 0, busy_world)"
    by (simp_all add: returning_def)
  from C2_structural_synchronous_value_deferred [OF t h, where core = slot_core]
  obtain acc where e: "execute slot_core (returning (Variable 0) True) busy_world
             = (AccessorReference acc, busy_world)"
    and s: "\<And>u x. synchronous_passthrough (getReference slot_core (Variable 0)) u (referenceGetter acc u) \<and>
        synchronous_command (setReference slot_core (Variable 0) x) u (referenceSetter acc x u) \<and>
        synchronous_command (clearReference slot_core (Variable 0)) u (referenceClearer acc u) \<and>
        synchronous_passthrough (isReference slot_core (Variable 0)) u (referencenessGetter acc u)"
    and d: "\<And>u v. queue_wf u \<longrightarrow>
        defers_result slot_core u (valueGetter acc u) (getValue slot_core (Variable 0)) \<and>
        assigns_later slot_core u (valueSetter acc v u) (Variable 0) v \<and>
        defers_result slot_core u (unsetter acc u) (unset slot_core (Variable 0))"
    by auto
  from s [of busy_world "Reference 1"]
  have 1: "referenceGetter acc busy_world = (Variable 0, busy_world)"
    and 2: "referenceSetter acc (Reference 1) busy_world
              = (Undefined, busy_world\<lparr>ext := Reference 1\<rparr>)"
    and 3: "referenceClearer acc busy_world = (Undefined, busy_world\<lparr>ext := Undefined\<rparr>)"
    and 4: "referencenessGetter acc busy_world = (Boolean False, busy_world)"
    by (simp_all add: synchronous_passthrough_def synchronous_command_def slot_core_def
        prod_eq_iff busy_world_def)
  from d [of busy_world "Value 9"] busy_world_wf
  have 5: "defers_result slot_core busy_world (valueGetter acc busy_world)
        (getValue slot_core (Variable 0))"
    and 6: "assigns_later slot_core busy_world (valueSetter acc (Value 9) busy_world)
        (Variable 0) (Value 9)"
    and 7: "defers_result slot_core busy_world (unsetter acc busy_world)
        (unset slot_core (Variable 0))"
    by simp_all
  from t busy_world_wf e 1 2 3 4 5 6 7 show ?thesis by blast
qed

text \<open>
  C3: for an opcode that is not flagged as traced, the decorated executor returns exactly
  the raw result of the handler, and leaves the host as the handler left it: no future is
  created and nothing is queued.
\<close>

theorem C3_untraced_raw_result:
  assumes "\<not> isTraced opcode"
  shows "execute core opcode w = (Plain (fst (handle opcode w)), snd (handle opcode w))"
  using assms by (simp add: execute_def split: prod.split)


theorem C3_witness:
  "\<not> isTraced (returning (Value 4) False) \<and>
   execute slot_core (returning (Value 4) False) busy_world = (Plain (Value 4), busy_world)"
  using C3_untraced_raw_result [where opcode = "returning (Value 4) False" and core = slot_core and w = busy_world]
  by (simp add: returning_def)


text \<open>
  C9: on the accessor reference built for a reference or a variable, the defined check and
  the readable check are synchronous passthroughs of the raw result's checks; the empty
  check, the set check and raising the undefined notice call the raw result at once and
  return a new future that is pending until a later tick and from then on follows what
  the raw capability returned, also when that is a future still pending.
\<close>

theorem C9_checks_placed:
  assumes "isTraced opcode" and "handle opcode w = (r, w1)"
    and "instanceofReference r \<or> instanceofVariable r"
  shows "\<exists>acc. execute core opcode w = (AccessorReference acc, w1) \<and>
     (\<forall>u.
        synchronous_passthrough (isDefined core r) u (definednessGetter acc u) \<and>
        synchronous_passthrough (isReadable core r) u (readablenessGetter acc u)) \<and>
     (\<forall>u. queue_wf u \<longrightarrow>
        defers_result core u (emptinessGetter acc u) (isEmpty core r) \<and>
        defers_result core u (setnessGetter acc u) (isSet core r) \<and>
        defers_result core u (undefinednessRaiser acc u) (raiseUndefined core r))"
proof (rule execute_reference_like [OF assms, where core = core])
  fix acc
  assume e: "execute core opcode w = (AccessorReference acc, w1)"
    and acc: "definednessGetter acc = call (isDefined core r)"
      "readablenessGetter acc = call (isReadable core r)"
      "emptinessGetter acc = (\<lambda>u. case call (isEmpty core r) u of (v, u') \<Rightarrow>
                             futureFactory_createAsyncPresent v u')"
      "setnessGetter acc = (\<lambda>u. case call (isSet core r) u of (v, u') \<Rightarrow>
                             futureFactory_createAsyncPresent v u')"
      "undefinednessRaiser acc = (\<lambda>u. case call (raiseUndefined core r) u of (v, u') \<Rightarrow>
                             futureFactory_createAsyncPresent v u')"
  show ?thesis
  proof (intro exI conjI allI impI)
    show "execute core opcode w = (AccessorReference acc, w1)" by (rule e)
  qed (simp_all only: acc synchronous_passthrough_call defers_result_call)
qed

theorem C9_witness:
  "isTraced (returning (Reference 2) True) \<and> queue_wf busy_world \<and>
   \<not> isSettled busy_world (fst (isEmpty lazy_core (Reference 2) (ext busy_world))) \<and>
   (\<exists>acc. execute lazy_core (returning (Reference 2) True) busy_world
             = (AccessorReference acc, busy_world) \<and>
      definednessGetter acc busy_world = (Boolean True, busy_world) \<and>
      readablenessGetter acc busy_world = (Boolean True, busy_world) \<and>
      fst (emptinessGetter acc busy_world) = Future 2 \<and>
      defers_result lazy_core busy_world (emptinessGetter acc busy_world)
        (isEmpty lazy_core (Reference 2)) \<and>
      defers_result lazy_core busy_world (setnessGetter acc busy_world)
        (isSet lazy_core (Reference 2)) \<and>
      defers_result lazy_core busy_world (undefinednessRaiser acc busy_world)
        (raiseUndefined lazy_core (Reference 2)))"
proof -
  have t: "isTraced (returning (Reference 2) True)"
    and h: "handle (returning (Reference 2) True) busy_world = (Reference 2, busy_world)"
    by (simp_all add: returning_def)
  have p: "\<not> isSettled busy_world (fst (isEmpty lazy_core (Reference 2) (ext busy_world)))"
    by (simp add: lazy_core_def slot_core_def futureState_def cell_at_def busy_world_def)
  from C9_checks_placed [OF t h, where core = lazy_core]
  obtain acc where e: "execute lazy_core (returning (Reference 2) True) busy_world
             = (AccessorReference acc, busy_world)"
    and s: "\<And>u. synchronous_passthrough (isDefined lazy_core (Reference 2)) u (definednessGetter acc u) \<and>
        synchronous_passthrough (isReadable lazy_core (Reference 2)) u (readablenessGetter acc u)"
    and d: "\<And>u. queue_wf u \<longrightarrow>
        defers_result lazy_core u (emptinessGetter acc u) (isEmpty lazy_core (Reference 2)) \<and>
        defers_result lazy_core u (setnessGetter acc u) (isSet lazy_core (Reference 2)) \<and>
        defers_result lazy_core u (undefinednessRaiser acc u)
          (raiseUndefined lazy_core (Reference 2))"
    by auto
  from s [of busy_world]
  have 1: "definednessGetter acc busy_world = (Boolean True, busy_world)"
    and 2: "readablenessGetter acc busy_world = (Boolean True, busy_world)"
    by (simp_all add: synchronous_passthrough_def lazy_core_def slot_core_def prod_eq_iff
        busy_world_def)
  from d [of busy_world] busy_world_wf
  have 3: "defers_result lazy_core busy_world (emptinessGetter acc busy_world)
        (isEmpty lazy_core (Reference 2))"
    and 4: "defers_result lazy_core busy_world (setnessGetter acc busy_world)
        (isSet lazy_core (Reference 2))"
    and 5: "defers_result lazy_core busy_world (undefinednessRaiser acc busy_world)
        (raiseUndefined lazy_core (Reference 2))"
    by simp_all
  from 3 have 6: "fst (emptinessGetter acc busy_world) = Future 2"
    by (simp add: defers_result_def Let_def busy_world_def)
  from t busy_world_wf p e 1 2 3 4 5 6 show ?thesis by blast
qed

text \<open>
  C10: a traced opcode whose handler returns a future that is not settled, or a result
  that is neither a future, a value, a reference nor a variable. The executor returns the
  raw result itself, and the host is as the handler left it.
\<close>

theorem C10_other_results_unchanged:
  assumes "isTraced opcode" and "handle opcode w = (r, w1)"
    and "(isFuture r \<and> \<not> isSettled w1 r) \<or>
         (\<not> isFuture r \<and> \<not> instanceofValue r \<and>
          \<not> instanceofReference r \<and> \<not> instanceofVariable r)"
  shows "execute core opcode w = (Plain r, w1)"
proof -
  from assms(3) have "\<not> instanceofValue r" "\<not> instanceofReference r" "\<not> instanceofVariable r"
    by (cases r; simp)+
  with assms show ?thesis by (auto simp add: execute_def)
qed


theorem C10_witness:
  "isTraced (returning (Future 1) True) \<and> \<not> isSettled busy_world (Future 1) \<and>
   execute slot_core (returning (Future 1) True) busy_world = (Plain (Future 1), busy_world) \<and>
   execute slot_core (returning (Other 3) True) busy_world = (Plain (Other 3), busy_world)"
proof -
  have t: "isTraced (returning x True)"
    and h: "handle (returning x True) busy_world = (x, busy_world)" for x
    by (simp_all add: returning_def)
  have p: "\<not> isSettled busy_world (Future 1)"
    by (simp add: futureState_def cell_at_def busy_world_def)
  from C10_other_results_unchanged [OF t [of "Future 1"] h [of "Future 1"], where core = slot_core]
    C10_other_results_unchanged [OF t [of "Other 3"] h [of "Other 3"], where core = slot_core]
  show ?thesis using t p by simp
qed


subsection \<open>The runtimes of the tools object\<close>

lemma persistent_apply_hook: "persistent (apply_hook f)"
  using apply_hook [of f] by simp

lemma apply_hook_example:
  "apply_hook creating_another r h = (Some r, snd (runtimeFactory_create ''sync'' h))"
  "apply_hook returning_the_first r h = (Some 0, h)"
  "apply_hook returning_nothing r h = (None, h)"
proof -
  have "persistent (\<lambda>r h. (Some r, snd (runtimeFactory_create ''sync'' h)))"
    and "persistent (\<lambda>r h. (Some 0, h))" and "persistent (\<lambda>r h. (None, h))"
    by (auto simp add: persistent_def runtimeFactory_create_def)
  then show "apply_hook creating_another r h = (Some r, snd (runtimeFactory_create ''sync'' h))"
    and "apply_hook returning_the_first r h = (Some 0, h)"
    and "apply_hook returning_nothing r h = (None, h)"
    by (simp_all add: creating_another_def returning_the_first_def returning_nothing_def
        Abs_init_hook_inverse)
qed

lemma grown:
  assumes "prefix (xs @ [m]) ys"
  shows "length xs < length ys" and "ys ! length xs = m" and "prefix xs ys"
  using assms by (auto simp add: prefix_def)


lemma createRuntime_grows:
  "prefix (map mode (runtimes g) @ [m]) (map mode (runtimes (snd (createRuntime initRuntime m g))))"
proof (cases initRuntime)
  case None
  then show ?thesis by (simp add: createRuntime_def runtimeFactory_create_def)
next
  case (Some f)
  let ?g1 = "g\<lparr>runtimes := runtimes g @ [\<lparr>mode = m, opcode_executor = OpcodeExecutor\<rparr>]\<rparr>"
  have "prefix (map mode (runtimes ?g1))
          (map mode (runtimes (snd (apply_hook f (length (runtimes g)) ?g1))))"
    using persistent_apply_hook [of f] unfolding persistent_def by blast
  with Some show ?thesis by (simp add: createRuntime_def runtimeFactory_create_def)
qed

lemma createRuntime_exists:
  assumes "fst (createRuntime initRuntime m g) = Some a"
  shows "a < length (runtimes (snd (createRuntime initRuntime m g)))"
proof (cases initRuntime)
  case None
  with assms show ?thesis by (auto simp add: createRuntime_def runtimeFactory_create_def)
next
  case (Some f)
  let ?g1 = "g\<lparr>runtimes := runtimes g @ [\<lparr>mode = m, opcode_executor = OpcodeExecutor\<rparr>]\<rparr>"
  have "length (runtimes g) < length (runtimes ?g1)" by simp
  moreover have "fst (apply_hook f (length (runtimes g)) ?g1) = Some a"
    using assms Some by (simp add: createRuntime_def runtimeFactory_create_def)
  ultimately have "a < length (runtimes (snd (apply_hook f (length (runtimes g)) ?g1)))"
    using persistent_apply_hook [of f] unfolding persistent_def by blast
  with Some show ?thesis by (simp add: createRuntime_def runtimeFactory_create_def)
qed




lemma shared_runtimes_eq:
  "shared_runtimes initRuntime h =
     (\<lparr>asyncRuntime = fst (createRuntime initRuntime ''async'' h),
       psyncRuntime = fst (createRuntime initRuntime ''psync''
                             (snd (createRuntime initRuntime ''async'' h))),
       syncRuntime = fst (createRuntime initRuntime ''sync''
                            (snd (createRuntime initRuntime ''psync''
                               (snd (createRuntime initRuntime ''async'' h)))))\<rparr>,
      snd (createRuntime initRuntime ''sync''
             (snd (createRuntime initRuntime ''psync''
                (snd (createRuntime initRuntime ''async'' h))))))"
  by (simp add: shared_runtimes_def createAsyncRuntime_def createPsyncRuntime_def
      createSyncRuntime_def split_beta)

lemma shared_async_exists:
  assumes "shared_runtimes initRuntime h = (t, h3)" and "asyncRuntime t = Some a"
  shows "a < length (runtimes h3)"
proof -
  let ?h1 = "snd (createRuntime initRuntime ''async'' h)"
  let ?h2 = "snd (createRuntime initRuntime ''psync'' ?h1)"
  let ?h3 = "snd (createRuntime initRuntime ''sync'' ?h2)"
  from assms have a: "fst (createRuntime initRuntime ''async'' h) = Some a" and h3: "h3 = ?h3"
    by (auto simp add: shared_runtimes_eq)
  have "a < length (map mode (runtimes ?h1))"
    using createRuntime_exists [OF a] by simp
  also have "\<dots> < length (map mode (runtimes ?h2))"
    using grown(1) [OF createRuntime_grows [of ?h1 "''psync''" initRuntime]] .
  also have "\<dots> < length (map mode (runtimes ?h3))"
    using grown(1) [OF createRuntime_grows [of ?h2 "''sync''" initRuntime]] .
  finally show ?thesis by (simp add: h3)
qed








text \<open>
  C8, as stated, asks that the hook is installed whenever the third argument is left out.
  It is installed by calling \<open>install\<close> on what the init hook returned for the async
  runtime (lines 51 and 233): with a hook that has no \<open>return\<close>, construction throws a
  \<open>TypeError\<close> and installs nothing.
\<close>

theorem C8_counterexample:
  "createIntegrationTools (Some returning_nothing) FlagUndefined \<lparr>runtimes = []\<rparr>
     = Inl TypeError"
  by (simp add: createIntegrationTools_def shared_runtimes_def createAsyncRuntime_def
      createPsyncRuntime_def createSyncRuntime_def createRuntime_def runtimeFactory_create_def
      installForcedAsyncOpcodeHook_def runtime_install_def apply_hook_example)


text \<open>
  C8, amended: let the creation of the three shared runtimes end with the tools \<open>t\<close> in
  the host state \<open>h3\<close>. With \<open>false\<close> as the third argument, construction returns them as
  they are. With the third argument left out, or \<open>true\<close>: if the shared async runtime is a
  runtime, construction replaces its opcode executor by the forced-async one and changes
  nothing else; if it is none, because the init hook returned something else, construction
  throws a \<open>TypeError\<close>.
\<close>

theorem C8_forced_async_unless_false:
  assumes "shared_runtimes initRuntime h = (t, h3)"
  shows "createIntegrationTools initRuntime (FlagBoolean False) h = Inr (t, h3) \<and>
         createIntegrationTools initRuntime (FlagBoolean True) h
           = createIntegrationTools initRuntime FlagUndefined h \<and>
         (\<forall>a. asyncRuntime t = Some a \<longrightarrow>
            a < length (runtimes h3) \<and>
            createIntegrationTools initRuntime FlagUndefined h
              = Inr (t, h3\<lparr>runtimes := (runtimes h3)[a :=
                       (runtimes h3 ! a)\<lparr>opcode_executor := AsyncOpcodeExecutor\<rparr>]\<rparr>)) \<and>
         (asyncRuntime t = None \<longrightarrow>
            createIntegrationTools initRuntime FlagUndefined h = Inl TypeError)"
  using shared_async_exists [OF assms]
  by (simp add: createIntegrationTools_def assms installForcedAsyncOpcodeHook_def
      runtime_install_def)


theorem C8_witness:
  "shared_runtimes None \<lparr>runtimes = []\<rparr>
     = (\<lparr>asyncRuntime = Some 0, psyncRuntime = Some 1, syncRuntime = Some 2\<rparr>,
        \<lparr>runtimes = [\<lparr>mode = ''async'', opcode_executor = OpcodeExecutor\<rparr>,
                     \<lparr>mode = ''psync'', opcode_executor = OpcodeExecutor\<rparr>,
                     \<lparr>mode = ''sync'', opcode_executor = OpcodeExecutor\<rparr>]\<rparr>) \<and>
   createIntegrationTools None FlagUndefined \<lparr>runtimes = []\<rparr>
     = Inr (\<lparr>asyncRuntime = Some 0, psyncRuntime = Some 1, syncRuntime = Some 2\<rparr>,
            \<lparr>runtimes = [\<lparr>mode = ''async'', opcode_executor = AsyncOpcodeExecutor\<rparr>,
                         \<lparr>mode = ''psync'', opcode_executor = OpcodeExecutor\<rparr>,
                         \<lparr>mode = ''sync'', opcode_executor = OpcodeExecutor\<rparr>]\<rparr>) \<and>
   createIntegrationTools None (FlagBoolean True) \<lparr>runtimes = []\<rparr>
     = createIntegrationTools None FlagUndefined \<lparr>runtimes = []\<rparr> \<and>
   createIntegrationTools None (FlagBoolean False) \<lparr>runtimes = []\<rparr>
     = Inr (\<lparr>asyncRuntime = Some 0, psyncRuntime = Some 1, syncRuntime = Some 2\<rparr>,
            \<lparr>runtimes = [\<lparr>mode = ''async'', opcode_executor = OpcodeExecutor\<rparr>,
                         \<lparr>mode = ''psync'', opcode_executor = OpcodeExecutor\<rparr>,
                         \<lparr>mode = ''sync'', opcode_executor = OpcodeExecutor\<rparr>]\<rparr>)"
proof -
  have s: "shared_runtimes None \<lparr>runtimes = []\<rparr>
     = (\<lparr>asyncRuntime = Some 0, psyncRuntime = Some 1, syncRuntime = Some 2\<rparr>,
            \<lparr>runtimes = [\<lparr>mode = ''async'', opcode_executor = OpcodeExecutor\<rparr>,
                         \<lparr>mode = ''psync'', opcode_executor = OpcodeExecutor\<rparr>,
                         \<lparr>mode = ''sync'', opcode_executor = OpcodeExecutor\<rparr>]\<rparr>)"
    by (simp add: shared_runtimes_def createAsyncRuntime_def
      createPsyncRuntime_def createSyncRuntime_def createRuntime_def runtimeFactory_create_def)
  from C8_forced_async_unless_false [OF s]
  show ?thesis using s by simp
qed


subsection \<open>The stack normaliser\<close>









lemma rounding_examples:
  "nearest_double (2 ^ 53 + 1) = Finite (2 ^ 53)"
  "nearest_double (2 ^ 53 + 3) = Finite (2 ^ 53 + 4)"
  "nearest_double (- (2 ^ 53) - 1) = Finite (- (2 ^ 53))"
  "nearest_double (2 ^ 1024) = PlusInfinity"
  by (simp_all add: nearest_double_def Let_def)


text \<open>
  C4: for a module handle without an entry in \<open>moduleDataMap\<close>, whatever the stack,
  \<open>normaliseStack\<close> throws the harness error that names the missing \<open>options.sourceMap\<close>;
  it returns no promise, hence no text.
\<close>

theorem C4_unregistered_module_throws:
  assumes "moduleDataMap module = None"
  shows "normaliseStack env moduleDataMap stack module
         = Threw (Error (''Test harness error: module data map does not contain data for this module - ''
                         @ ''did you forget to set options.sourceMap?''))"
  using assms by (simp add: normaliseStack_def)


theorem C4_witness:
  "normaliseStack first_line_only Map.empty two_frames 0
     = Threw (Error ''Test harness error: module data map does not contain data for this module - did you forget to set options.sourceMap?'')"
  using C4_unregistered_module_throws [where moduleDataMap = Map.empty and module = 0
      and env = first_line_only and stack = two_frames]
  by simp






subsection \<open>Matching and scanning\<close>

text \<open>
  The recursive equations of the matcher and of the scan are unfolded by hand from here
  on.
\<close>

declare scan.simps [simp del]

declare ms.simps(7,8) [simp del]

lemmas ms_Star = ms.simps(7)

lemmas ms_LazyStar = ms.simps(8)

lemma terminator_free_simps [simp]:
  "terminator_free []"
  "terminator_free (x # xs) \<longleftrightarrow> \<not> line_terminator x \<and> terminator_free xs"
  "terminator_free (xs @ ys) \<longleftrightarrow> terminator_free xs \<and> terminator_free ys"
  by (simp_all add: terminator_free_def)

lemma last_of_simps [simp]:
  "last_of p [] = p"
  "last_of p (u @ [x]) = Some x"
  "last_of (last_of p u) v = last_of p (u @ v)"
  "last_of (Some x) u = Some (last (x # u))"
  "last_of p (x # u) = Some (last (x # u))"
  by (auto simp add: last_of_def)

lemma last_of_Cons: "last_of p (x # u) = last_of (Some x) u"
  by simp

lemma strip_prefix_Some:
  "strip_prefix l p s = Some (p', s') \<Longrightarrow> s = l @ s' \<and> p' = last_of p l"
proof (induction l p s rule: strip_prefix.induct)
  case (3 x xs p y ys)
  then show ?case by (auto simp add: last_of_Cons split: if_splits)
qed simp_all

lemma strip_prefix_append: "strip_prefix l p (l @ s) = Some (last_of p l, s)"
  by (induction l arbitrary: p) (simp_all add: last_of_Cons)

lemma digit_not_terminator: "digit x \<Longrightarrow> \<not> line_terminator x"
  by (auto simp add: digit_def line_terminator_def LF_def CR_def)

lemma in_class_line_local: "line_local (Cls k) \<Longrightarrow> in_class k x \<Longrightarrow> \<not> line_terminator x"
  by (cases k) (auto simp add: digit_not_terminator terminator_free_def list_all_iff)

lemma line_local_results:
  "x \<in> set (ms r st) \<Longrightarrow> line_local r \<Longrightarrow>
   \<exists>u. fst (snd st) = u @ fst (snd x) \<and> terminator_free u \<and> fst x = last_of (fst st) u \<and>
       (captures_terminator_free (snd (snd st)) \<longrightarrow> captures_terminator_free (snd (snd x)))"
proof (induction r st arbitrary: x rule: ms.induct)
  case (1 l p s c)
  from "1.prems" obtain p' s' where m: "strip_prefix l p s = Some (p', s')" and x: "x = (p', s', c)"
    by (cases "strip_prefix l p s") auto
  from strip_prefix_Some [OF m] "1.prems"(2) x show ?case
    by (intro exI [of _ l]) simp
next
  case (2 k p s c)
  from "2.prems" obtain y ys where s: "s = y # ys" and k: "in_class k y" and x: "x = (Some y, ys, c)"
    by (auto split: list.splits if_splits)
  from in_class_line_local [OF "2.prems"(2) k] s x show ?case
    by (intro exI [of _ "[y]"]) simp
next
  case (3 p s c)
  from "3.prems" have "x = (p, s, c)" by (auto split: option.splits if_splits)
  then show ?case by (intro exI [of _ "[]"]) simp
next
  case (4 a b st)
  from "4.prems" obtain y where y: "y \<in> set (ms a st)" and x: "x \<in> set (ms b y)" by auto
  from "4.IH"(1) [OF y] "4.prems" obtain u where
    u: "fst (snd st) = u @ fst (snd y)" "terminator_free u" "fst y = last_of (fst st) u"
      "captures_terminator_free (snd (snd st)) \<longrightarrow> captures_terminator_free (snd (snd y))"
    by auto
  from "4.IH"(2) [OF y x] "4.prems" obtain v where
    v: "fst (snd y) = v @ fst (snd x)" "terminator_free v" "fst x = last_of (fst y) v"
      "captures_terminator_free (snd (snd y)) \<longrightarrow> captures_terminator_free (snd (snd x))"
    by auto
  show ?case
    by (rule exI [of _ "u @ v"]) (use u v in simp)
next
  case (5 a b st)
  then show ?case by auto
next
  case (6 a st)
  from "6.prems" have "x \<in> set (ms a st) \<or> x = st" by auto
  then show ?case
  proof
    assume "x \<in> set (ms a st)"
    with "6.IH" "6.prems" show ?thesis by simp
  next
    assume "x = st"
    then show ?thesis by (intro exI [of _ "[]"]) simp
  qed
next
  case (7 a st)
  from "7.prems"(1) consider "x = st"
    | y where "y \<in> set (ms a st)" "length (fst (snd y)) < length (fst (snd st))"
        "x \<in> set (ms (Star a) y)"
    by (subst (asm) ms_Star) (auto split: if_splits)
  then show ?case
  proof cases
    case 1
    then show ?thesis by (intro exI [of _ "[]"]) simp
  next
    case 2
    from "7.IH"(1) [OF 2(1)] "7.prems" obtain u where
      u: "fst (snd st) = u @ fst (snd y)" "terminator_free u" "fst y = last_of (fst st) u"
        "captures_terminator_free (snd (snd st)) \<longrightarrow> captures_terminator_free (snd (snd y))"
      by auto
    from "7.IH"(2) [OF 2(1) 2(2) 2(3)] "7.prems" obtain v where
      v: "fst (snd y) = v @ fst (snd x)" "terminator_free v" "fst x = last_of (fst y) v"
        "captures_terminator_free (snd (snd y)) \<longrightarrow> captures_terminator_free (snd (snd x))"
      by auto
    show ?thesis
      by (rule exI [of _ "u @ v"]) (use u v in simp)
  qed
next
  case (8 a st)
  from "8.prems"(1) consider "x = st"
    | y where "y \<in> set (ms a st)" "length (fst (snd y)) < length (fst (snd st))"
        "x \<in> set (ms (LazyStar a) y)"
    by (subst (asm) ms_LazyStar) (auto split: if_splits)
  then show ?case
  proof cases
    case 1
    then show ?thesis by (intro exI [of _ "[]"]) simp
  next
    case 2
    from "8.IH"(1) [OF 2(1)] "8.prems" obtain u where
      u: "fst (snd st) = u @ fst (snd y)" "terminator_free u" "fst y = last_of (fst st) u"
        "captures_terminator_free (snd (snd st)) \<longrightarrow> captures_terminator_free (snd (snd y))"
      by auto
    from "8.IH"(2) [OF 2(1) 2(2) 2(3)] "8.prems" obtain v where
      v: "fst (snd y) = v @ fst (snd x)" "terminator_free v" "fst x = last_of (fst y) v"
        "captures_terminator_free (snd (snd y)) \<longrightarrow> captures_terminator_free (snd (snd x))"
      by auto
    show ?thesis
      by (rule exI [of _ "u @ v"]) (use u v in simp)
  qed
next
  case (9 n a p s c)
  from "9.prems" obtain p' s' c' where
    y: "(p', s', c') \<in> set (ms a (p, s, c))"
    and x: "x = (p', s', (n, take (length s - length s') s) # c')"
    by auto
  from "9.IH" [OF y] "9.prems" obtain u where
    u: "s = u @ s'" "terminator_free u" "p' = last_of p u"
      "captures_terminator_free c \<longrightarrow> captures_terminator_free c'"
    by auto
  show ?case
    by (rule exI [of _ u]) (use u x in \<open>simp add: captures_terminator_free_def\<close>)
qed

lemma line_local_result:
  assumes "(p', s', c') \<in> set (ms r (p, s, c))" and "line_local r"
  shows "\<exists>u. s = u @ s' \<and> terminator_free u \<and> p' = last_of p u"
    and "captures_terminator_free c \<Longrightarrow> captures_terminator_free c'"
  using line_local_results [OF assms] by auto

lemma ms_Seq_nonempty:
  "ms (Seq a b) st \<noteq> [] \<Longrightarrow> \<exists>y \<in> set (ms a st). ms b y \<noteq> []"
  by (auto simp add: concat_eq_Nil_conv)

lemma ms_Seq_elim:
  assumes "x \<in> set (ms (Seq a b) st)"
  obtains y where "y \<in> set (ms a st)" and "x \<in> set (ms b y)"
  using assms by auto

lemma ms_Seq_member:
  "y \<in> set (ms a st) \<Longrightarrow> x \<in> set (ms b y) \<Longrightarrow> x \<in> set (ms (Seq a b) st)"
  by auto

lemma ms_Lit_append [simp]: "ms (Lit l) (p, l @ s, c) = [(last_of p l, s, c)]"
  by (simp add: strip_prefix_append)

lemma ms_Lit_nonempty: "ms (Lit l) (p, s, c) \<noteq> [] \<Longrightarrow> prefix l s"
  by (auto split: option.splits dest!: strip_prefix_Some)

lemma ms_Lit_elim:
  assumes "(p', s', c') \<in> set (ms (Lit l) (p, s, c))"
  shows "s = l @ s'" and "p' = last_of p l" and "c' = c"
  using assms by (auto split: option.splits dest!: strip_prefix_Some [OF sym])

lemma ms_Lit_reach: "(last_of p l, s, c) \<in> set (ms (Lit l) (p, l @ s, c))"
  by (simp add: strip_prefix_append)

lemma star_cls_reach:
  "list_all (in_class k) u \<Longrightarrow> (last_of p u, s, c) \<in> set (ms (Star (Cls k)) (p, u @ s, c))"
proof (induction u arbitrary: p)
  case Nil
  then show ?case by (subst ms_Star) simp
next
  case (Cons x u)
  from Cons.prems have "(last_of (Some x) u, s, c) \<in> set (ms (Star (Cls k)) (Some x, u @ s, c))"
    by (intro Cons.IH) simp
  with Cons.prems show ?case
    by (subst ms_Star) (simp add: last_of_Cons del: last_of_simps)
qed

lemma rep1_cls_reach:
  assumes "u \<noteq> []" and "list_all (in_class k) u"
  shows "(last_of p u, s, c) \<in> set (ms (Rep1 (Cls k)) (p, u @ s, c))"
proof -
  from assms obtain x v where u: "u = x # v" by (cases u) auto
  with assms have "(last_of (Some x) v, s, c) \<in> set (ms (Star (Cls k)) (Some x, v @ s, c))"
    by (intro star_cls_reach) simp
  with assms u show ?thesis
    by (simp add: Rep1_def last_of_Cons del: last_of_simps)
qed

lemma terminator_free_Dot: "terminator_free u \<Longrightarrow> list_all (in_class Dot) u"
  by (simp add: terminator_free_def list_all_iff)

lemma digits_Digit: "digits d \<Longrightarrow> d \<noteq> [] \<and> list_all (in_class Digit) d"
  by (simp add: digits_def list_all_iff)

lemma group_reach:
  "(p', s', c') \<in> set (ms a (p, s, c)) \<Longrightarrow>
   (p', s', (n, take (length s - length s') s) # c') \<in> set (ms (Group n a) (p, s, c))"
  by force

lemma at_line_start_Bol [simp]: "ms Bol (p, s, c) = (if at_line_start p then [(p, s, c)] else [])"
  by (simp add: at_line_start_def split: option.splits)



lemma first_line_append: "terminator_free u \<Longrightarrow> first_line (u @ s) = u @ first_line s"
  by (simp add: first_line_def terminator_free_def list_all_iff)

lemma first_line_terminated:
  "v \<noteq> [] \<Longrightarrow> line_terminator (last v) \<Longrightarrow> first_line (v @ t) = first_line v"
  unfolding first_line_def
  by (rule takeWhile_append1 [where x = "last v"]) simp_all

lemma sublist_first_line: "sublist (first_line v) v"
  unfolding first_line_def by (metis prefix_imp_sublist takeWhile_is_prefix)

lemma first_line_Nil [simp]: "first_line [] = []"
  by (simp add: first_line_def)

lemma first_line_terminator [simp]: "line_terminator x \<Longrightarrow> first_line (x # s) = []"
  by (simp add: first_line_def)

lemma scan_copy:
  assumes "\<And>u v. pre = u @ v \<Longrightarrow> v \<noteq> [] \<Longrightarrow> ms r (last_of p u, v @ t, []) = []"
  shows "scan r p (pre @ t) = map Copied pre @ scan r (last_of p pre) t"
  using assms
proof (induction pre arbitrary: p)
  case Nil
  then show ?case by simp
next
  case (Cons x pre)
  from Cons.prems [of "[]" "x # pre"] have 1: "ms r (p, x # pre @ t, []) = []" by simp
  have "scan r (Some x) (pre @ t) = map Copied pre @ scan r (last_of (Some x) pre) t"
  proof (rule Cons.IH)
    fix u v assume "pre = u @ v" "v \<noteq> []"
    with Cons.prems [of "x # u" v] show "ms r (last_of (Some x) u, v @ t, []) = []"
      by (simp add: last_of_Cons del: last_of_simps)
  qed
  with 1 show ?case
    by (subst scan.simps) (simp add: last_of_Cons del: last_of_simps)
qed


declare ms.simps [simp del]

lemma capture_terminator_free:
  "captures_terminator_free c \<Longrightarrow> terminator_free (capture c n)"
  by (auto simp add: captures_terminator_free_def capture_def list_all_iff
      split: option.splits dest!: map_of_SomeD)

lemma line_local_mocha_frame: "terminator_free mp \<Longrightarrow> line_local (mocha_frame mp)"
  by (simp add: mocha_frame_def Rep1_def line_terminator_def LF_def CR_def)

lemma mocha_frame_result:
  assumes x: "(p', s', c') \<in> set (ms (mocha_frame mp) (p, s, c))" and mp: "terminator_free mp"
  shows "at_line_start p"
    and "\<exists>u v. s = u @ mp @ v @ s' \<and> terminator_free (u @ mp @ v) \<and> p' = last_of p (u @ mp @ v)"
    and "captures_terminator_free c \<Longrightarrow> captures_terminator_free c'"
proof -
  let ?G = "Group 1 (Star (Cls Dot))"
  let ?R = "seq [Group 2 (Seq (Star (Cls Dot)) (Lit '':'')), Rep1 (Cls Digit), Lit '':'',
                 Rep1 (Cls Digit)]"
  have m: "mocha_frame mp = Seq Bol (Seq ?G (Seq (Lit mp) ?R))"
    by (simp add: mocha_frame_def)
  have lR: "line_local ?R"
    by (simp add: Rep1_def line_terminator_def LF_def CR_def)
  from x obtain w where w: "w \<in> set (ms Bol (p, s, c))"
    and 1: "(p', s', c') \<in> set (ms (Seq ?G (Seq (Lit mp) ?R)) w)"
    unfolding m by (rule ms_Seq_elim)
  from w show "at_line_start p" by (simp split: if_splits)
  from w have "w = (p, s, c)" by (simp split: if_splits)
  with 1 have "(p', s', c') \<in> set (ms (Seq ?G (Seq (Lit mp) ?R)) (p, s, c))" by simp
  then obtain y where y: "y \<in> set (ms ?G (p, s, c))"
    and 2: "(p', s', c') \<in> set (ms (Seq (Lit mp) ?R) y)"
    by (rule ms_Seq_elim)
  from 2 obtain z where z: "z \<in> set (ms (Lit mp) y)" and x': "(p', s', c') \<in> set (ms ?R z)"
    by (rule ms_Seq_elim)
  obtain p1 s1 c1 where y': "y = (p1, s1, c1)" by (cases y)
  obtain p2 s2 c2 where z': "z = (p2, s2, c2)" by (cases z)
  have "line_local ?G" by simp
  from line_local_result(1) [OF y [unfolded y'] this]
  obtain u where u: "s = u @ s1" "terminator_free u" "p1 = last_of p u"
    by blast
  from z y' z' have s1: "s1 = mp @ s2" and p2: "p2 = last_of p1 mp"
    using ms_Lit_elim [of p2 s2 c2 mp p1 s1 c1] by simp_all
  from line_local_result(1) [OF x' [unfolded z'] lR]
  obtain v where v: "s2 = v @ s'" "terminator_free v" "p' = last_of p2 v"
    by blast
  show "\<exists>u v. s = u @ mp @ v @ s' \<and> terminator_free (u @ mp @ v) \<and> p' = last_of p (u @ mp @ v)"
    by (intro exI [of _ u] exI [of _ v]) (use u s1 p2 v mp in simp)
  show "captures_terminator_free c'" if "captures_terminator_free c"
    using line_local_result(2) [OF x line_local_mocha_frame [OF mp] that] .
qed

lemma mocha_frame_needs:
  assumes "ms (mocha_frame mp) (p, s, c) \<noteq> []" and "terminator_free mp"
  shows "at_line_start p \<and> sublist mp (first_line s)"
proof -
  from assms(1) obtain p' s' c' where x: "(p', s', c') \<in> set (ms (mocha_frame mp) (p, s, c))"
    by (cases "ms (mocha_frame mp) (p, s, c)") auto
  from mocha_frame_result(2) [OF x assms(2)] obtain u v where
    "s = u @ mp @ v @ s'" "terminator_free (u @ mp @ v)" by blast
  then have "first_line s = u @ mp @ v @ first_line s'"
    using first_line_append [of "u @ mp @ v" s'] by simp
  then show ?thesis
    using mocha_frame_result(1) [OF x assms(2)] by (auto simp add: sublist_def)
qed

lemma mocha_frame_matches:
  assumes "at_line_start p" and "mocha_line mp f"
  shows "ms (mocha_frame mp) (p, f @ t, []) \<noteq> []"
proof -
  from assms(2) obtain a b d1 d2 c0 where
    f: "f = a @ mp @ b @ '':'' @ d1 @ '':'' @ d2 @ c0" and tf: "terminator_free f"
    and d: "digits d1" "digits d2"
    by (auto simp add: mocha_line_def)
  let ?G2 = "Seq (Star (Cls Dot)) (Lit '':'')"
  let ?s6 = "c0 @ t"
  let ?s5 = "d2 @ ?s6"
  let ?s4 = "'':'' @ ?s5"
  let ?s3 = "d1 @ ?s4"
  let ?s2' = "'':'' @ ?s3"
  let ?s2 = "b @ ?s2'"
  let ?s1 = "mp @ ?s2"
  let ?c1 = "[(1::nat, take (length (a @ ?s1) - length ?s1) (a @ ?s1))]"
  have ft: "f @ t = a @ ?s1" by (simp add: f)
  have tfa: "terminator_free a" and tfb: "terminator_free b" using tf f by simp_all
  have 0: "(p, a @ ?s1, []) \<in> set (ms Bol (p, a @ ?s1, []))"
    using assms(1) by simp
  have 1: "(last_of p a, ?s1, ?c1) \<in> set (ms (Group 1 (Star (Cls Dot))) (p, a @ ?s1, []))"
    by (rule group_reach [OF star_cls_reach [OF terminator_free_Dot [OF tfa]]])
  have 2: "(last_of (last_of p a) mp, ?s2, ?c1) \<in> set (ms (Lit mp) (last_of p a, ?s1, ?c1))"
    by (rule ms_Lit_reach)
  let ?p2 = "last_of (last_of p a) mp"
  have "(last_of (last_of ?p2 b) '':'', ?s3, ?c1) \<in> set (ms ?G2 (?p2, ?s2, ?c1))"
    by (rule ms_Seq_member [OF star_cls_reach [OF terminator_free_Dot [OF tfb]] ms_Lit_reach])
  from group_reach [OF this, of 2]
  obtain p3 c3 where 3: "(p3, ?s3, c3) \<in> set (ms (Group 2 ?G2) (?p2, ?s2, ?c1))"
    by blast
  have 4: "(last_of p3 d1, ?s4, c3) \<in> set (ms (Rep1 (Cls Digit)) (p3, ?s3, c3))"
    using digits_Digit [OF d(1)] by (intro rep1_cls_reach) simp_all
  have 5: "(last_of (last_of p3 d1) '':'', ?s5, c3)
            \<in> set (ms (Lit '':'') (last_of p3 d1, ?s4, c3))"
    by (rule ms_Lit_reach)
  have 6: "(last_of (last_of (last_of p3 d1) '':'') d2, ?s6, c3)
            \<in> set (ms (Rep1 (Cls Digit)) (last_of (last_of p3 d1) '':'', ?s5, c3))"
    using digits_Digit [OF d(2)] by (intro rep1_cls_reach) simp_all
  have "(last_of (last_of (last_of p3 d1) '':'') d2, ?s6, c3)
          \<in> set (ms (mocha_frame mp) (p, a @ ?s1, []))"
    unfolding mocha_frame_def seq.simps
    by (rule ms_Seq_member [OF 0 ms_Seq_member [OF 1 ms_Seq_member [OF 2 ms_Seq_member [OF 3
            ms_Seq_member [OF 4 ms_Seq_member [OF 5 6]]]]]])
  then show ?thesis unfolding ft by auto
qed

lemma replace_template_append:
  "replace_template T (xs @ ys) = replace_template T xs @ replace_template T ys"
  by (induction T xs rule: replace_template.induct) simp_all

lemma replace_template_Copied [simp]: "replace_template T (map Copied u) = u"
  by (induction u) simp_all

lemma append_line_split:
  assumes "f @ t = w @ s'" and "terminator_free w" and "t = [] \<or> line_terminator (hd t)"
  shows "\<exists>rest. f = w @ rest \<and> s' = rest @ t"
proof -
  from assms(1) consider us where "f = w @ us" "us @ t = s'"
    | us where "f @ us = w" "t = us @ s'"
    by (auto simp add: append_eq_append_conv2)
  then show ?thesis
  proof cases
    case 1
    then show ?thesis by auto
  next
    case 2
    have "us = []"
    proof (rule ccontr)
      assume "us \<noteq> []"
      with 2 assms(3) have "line_terminator (hd us)" by (cases us) auto
      moreover from 2 assms(2) have "terminator_free us" by auto
      ultimately show False using \<open>us \<noteq> []\<close> by (cases us) auto
    qed
    with 2 show ?thesis by auto
  qed
qed

text \<open>Copying through text in which the expression cannot match.\<close>

lemma copy_lines:
  assumes needs: "\<And>p s c. ms r (p, s, c) \<noteq> [] \<Longrightarrow> sublist l (first_line s)"
    and "\<not> sublist l pre" and "pre = [] \<or> line_terminator (last pre)"
  shows "scan r p (pre @ t) = map Copied pre @ scan r (last_of p pre) t"
proof (rule scan_copy)
  fix u v assume uv: "pre = u @ v" "v \<noteq> []"
  show "ms r (last_of p u, v @ t, []) = []"
  proof (rule ccontr)
    assume "ms r (last_of p u, v @ t, []) \<noteq> []"
    then have "sublist l (first_line (v @ t))" by (rule needs)
    moreover from uv assms(3) have "first_line (v @ t) = first_line v"
      by (intro first_line_terminated) auto
    moreover have "sublist (first_line v) pre"
      unfolding uv by (rule sublist_order.order.trans [OF sublist_first_line sublist_append_leftI])
    ultimately have "sublist l pre" by (simp add: sublist_order.order.trans)
    with assms(2) show False by simp
  qed
qed

lemma copy_rest:
  assumes needs: "\<And>p s c. ms r (p, s, c) \<noteq> [] \<Longrightarrow> sublist l (first_line s)"
    and "\<not> sublist l post"
  shows "scan r p post = map Copied post"
proof -
  have l: "l \<noteq> []" using assms(2) by auto
  have e: "ms r (q, [], []) = []" for q
    using needs [of q "[]" "[]"] l by (auto simp add: first_line_def)
  have "scan r p (post @ []) = map Copied post @ scan r (last_of p post) []"
  proof (rule scan_copy)
    fix u v assume uv: "post = u @ v" "v \<noteq> []"
    show "ms r (last_of p u, v @ [], []) = []"
    proof (rule ccontr)
      assume "ms r (last_of p u, v @ [], []) \<noteq> []"
      then have "sublist l (first_line v)" using needs by force
      moreover have "sublist (first_line v) post"
        unfolding uv by (rule sublist_order.order.trans [OF sublist_first_line sublist_append_leftI])
      ultimately have "sublist l post" by (rule sublist_order.order.trans)
      with assms(2) show False by simp
    qed
  qed
  moreover have "scan r q [] = []" for q
    by (subst scan.simps) (simp add: e)
  ultimately show ?thesis by simp
qed

lemma scan_start:
  assumes "ms r (p, s, []) = []" and "ms r (q, s, []) = []"
  shows "scan r p s = scan r q s"
  using assms by (subst (1 2) scan.simps) simp

text \<open>Copying through the rest of a line in which the expression cannot match.\<close>

lemma copy_line:
  assumes needs: "\<And>p s c. ms r (p, s, c) \<noteq> [] \<Longrightarrow> sublist l (first_line s)"
    and "\<not> sublist l v" and "terminator_free v" and "t = [] \<or> line_terminator (hd t)"
  shows "scan r p (v @ t) = map Copied v @ scan r (last_of p v) t"
proof (rule scan_copy)
  fix a b assume ab: "v = a @ b" "b \<noteq> []"
  show "ms r (last_of p a, b @ t, []) = []"
  proof (rule ccontr)
    assume "ms r (last_of p a, b @ t, []) \<noteq> []"
    then have "sublist l (first_line (b @ t))" by (rule needs)
    moreover have "first_line (b @ t) = b"
      using first_line_append [of b t] ab assms(3,4) by (cases t) simp_all
    moreover have "sublist b v" unfolding ab by simp
    ultimately have "sublist l v" by (simp add: sublist_order.order.trans)
    with assms(2) show False by simp
  qed
qed

lemma mocha_frame_line_start:
  "terminator_free mp \<Longrightarrow> \<not> at_line_start p \<Longrightarrow> ms (mocha_frame mp) (p, s, c) = []"
  using mocha_frame_needs by blast

lemma frame_step:
  assumes p: "at_line_start p" and f: "mocha_line mp f"
    and mp: "terminator_free mp" "mp \<noteq> []"
    and t: "t = [] \<or> line_terminator (hd t)"
    and T: "T = (\<lambda>c. capture c 1 @ ''/path/to/mocha'' @ capture c 2 @ ''??:??'')"
  shows "\<exists>f'. terminator_free f' \<and> sublist ''/path/to/mocha'' f' \<and>
           replace_template T (scan (mocha_frame mp) p (f @ t))
             = f' @ replace_template T (scan (mocha_frame mp) (Some (last f)) t)"
proof -
  let ?r = "mocha_frame mp"
  from f have tf: "terminator_free f" by (simp add: mocha_line_def)
  from mocha_frame_matches [OF p f, of t] obtain p' s' c' xs where
    m: "ms ?r (p, f @ t, []) = (p', s', c') # xs"
    by (cases "ms ?r (p, f @ t, [])") auto
  then have x: "(p', s', c') \<in> set (ms ?r (p, f @ t, []))" by simp
  from mocha_frame_result(2) [OF x mp(1)] obtain u v where
    w: "f @ t = (u @ mp @ v) @ s'" "terminator_free (u @ mp @ v)" "p' = last_of p (u @ mp @ v)"
    by auto
  let ?w = "u @ mp @ v"
  have wne: "?w \<noteq> []" using mp(2) by simp
  from mocha_frame_result(3) [OF x mp(1)] have ctf: "captures_terminator_free c'"
    by (simp add: captures_terminator_free_def)
  from append_line_split [OF w(1) w(2) t] obtain rest where
    rest: "f = ?w @ rest" "s' = rest @ t" by blast
  have len: "length s' < length (f @ t)" using rest wne by simp
  have 1: "scan ?r p (f @ t) = Matched c' # scan ?r p' (rest @ t)"
    using m len rest(2) by (subst scan.simps) simp
  have 2: "scan ?r p' (rest @ t) = map Copied rest @ scan ?r (last_of p' rest) t"
  proof (rule scan_copy)
    fix a b assume ab: "rest = a @ b" "b \<noteq> []"
    have "last_of p' a = last_of p (?w @ a)"
      unfolding w(3) by (simp only: last_of_simps)
    also have "\<dots> = Some (last (?w @ a))"
      using mp(2) by (simp add: last_of_def)
    finally have "last_of p' a = Some (last (?w @ a))" .
    moreover have "terminator_free (?w @ a)" using tf rest ab by simp
    then have "\<forall>y \<in> set (?w @ a). \<not> line_terminator y"
      by (simp only: terminator_free_def list_all_iff)
    moreover have "last (?w @ a) \<in> set (?w @ a)"
      using mp(2) by (intro last_in_set) simp
    ultimately have "\<not> at_line_start (last_of p' a)" by (simp add: at_line_start_def)
    with mp(1) show "ms ?r (last_of p' a, b @ t, []) = []" by (rule mocha_frame_line_start)
  qed
  have "last_of p' rest = last_of p (?w @ rest)"
    unfolding w(3) by (simp only: last_of_simps)
  also have "\<dots> = Some (last f)"
    using mp(2) rest(1) by (simp add: last_of_def)
  finally have 3: "last_of p' rest = Some (last f)" .
  let ?f = "T c' @ rest"
  have "terminator_free (T c')"
    unfolding T using capture_terminator_free [OF ctf]
    by (simp add: line_terminator_def LF_def CR_def)
  moreover have "terminator_free rest" using tf rest by simp
  moreover have "sublist ''/path/to/mocha''
      (capture c' 1 @ ''/path/to/mocha'' @ (capture c' 2 @ ''??:??'' @ rest))"
    by (rule sublist_appendI)
  then have "sublist ''/path/to/mocha'' ?f"
    unfolding T by simp
  moreover have "replace_template T (scan ?r p (f @ t))
                   = ?f @ replace_template T (scan ?r (Some (last f)) t)"
    by (simp add: 1 2 3 replace_template_append)
  ultimately show ?thesis by (intro exI [of _ ?f]) simp
qed

lemma ending_step:
  assumes "\<not> line_terminator x" and "line_ending e" and "terminator_free mp" and "mp \<noteq> []"
  shows "scan (mocha_frame mp) (Some x) (e @ t)
         = map Copied e @ scan (mocha_frame mp) (last_of (Some x) e) t"
proof (rule scan_copy)
  fix a b assume ab: "e = a @ b" "b \<noteq> []"
  show "ms (mocha_frame mp) (last_of (Some x) a, b @ t, []) = []"
  proof (rule ccontr)
    assume n: "ms (mocha_frame mp) (last_of (Some x) a, b @ t, []) \<noteq> []"
    from ab assms(2) have "line_terminator (hd b)"
      by (cases b) (auto simp add: line_ending_def)
    with ab have "first_line (b @ t) = []" by (cases b) auto
    with mocha_frame_needs [OF n assms(3)] assms(4) show False by simp
  qed
qed

lemma mocha_line_nonempty:
  assumes "mocha_line mp g" and "mp \<noteq> []"
  shows "g \<noteq> []" and "\<not> line_terminator (last g)" and "\<not> line_terminator (hd g)"
proof -
  from assms show g: "g \<noteq> []" by (auto simp add: mocha_line_def)
  from assms(1) have "\<forall>y \<in> set g. \<not> line_terminator y"
    by (simp add: mocha_line_def terminator_free_def list_all_iff)
  with g show "\<not> line_terminator (last g)" "\<not> line_terminator (hd g)" by simp_all
qed

lemma lines_text_Cons [simp]: "lines_text ((g, t) # ls) = g @ t @ lines_text ls"
  by (simp add: lines_text_def)

lemma lines_text_Nil [simp]: "lines_text [] = []"
  by (simp add: lines_text_def)

lemma line_ending_start:
  "line_ending t \<Longrightarrow> t \<noteq> [] \<Longrightarrow> line_terminator (hd (t @ s)) \<and> line_terminator (last t)"
  by (cases t) (auto simp add: line_ending_def list_all_iff)

lemma stage1_lines:
  assumes mp: "terminator_free mp" "mp \<noteq> []"
    and T: "T = (\<lambda>c. capture c 1 @ ''/path/to/mocha'' @ capture c 2 @ ''??:??'')"
    and p: "at_line_start p"
    and ls: "\<forall>(g, t) \<in> set ls. mocha_line mp g \<and> line_ending t \<and> t \<noteq> []"
  shows "\<exists>ls' p'. at_line_start p' \<and> map snd ls' = map snd ls \<and>
           (\<forall>(g', t) \<in> set ls'. terminator_free g' \<and> sublist ''/path/to/mocha'' g') \<and>
           replace_template T (scan (mocha_frame mp) p (lines_text ls @ rest))
             = lines_text ls' @ replace_template T (scan (mocha_frame mp) p' rest)"
  using p ls
proof (induction ls arbitrary: p)
  case Nil
  show ?case
    by (rule exI [of _ "[]"], rule exI [of _ p]) (simp add: Nil.prems)
next
  case (Cons l ls)
  obtain g t where l: "l = (g, t)" by (cases l)
  from Cons.prems l have g: "mocha_line mp g" and t: "line_ending t" "t \<noteq> []"
    and ls: "\<forall>(g, t) \<in> set ls. mocha_line mp g \<and> line_ending t \<and> t \<noteq> []"
    by auto
  let ?r = "mocha_frame mp"
  let ?tail = "lines_text ls @ rest"
  from line_ending_start [OF t] have t0: "t @ ?tail = [] \<or> line_terminator (hd (t @ ?tail))"
    and t1: "line_terminator (last t)" by simp_all
  from frame_step [OF Cons.prems(1) g mp t0 T] obtain g' where
    g': "terminator_free g'" "sublist ''/path/to/mocha'' g'"
      "replace_template T (scan ?r p (g @ t @ ?tail))
         = g' @ replace_template T (scan ?r (Some (last g)) (t @ ?tail))"
    by blast
  from ending_step [OF mocha_line_nonempty(2) [OF g mp(2)] t(1) mp]
  have 2: "scan ?r (Some (last g)) (t @ ?tail)
           = map Copied t @ scan ?r (last_of (Some (last g)) t) ?tail" .
  have 3: "at_line_start (last_of (Some (last g)) t)"
    using t t1 by (simp add: last_of_def at_line_start_def)
  from Cons.IH [OF 3 ls] obtain ls' p' where
    ih: "at_line_start p'" "map snd ls' = map snd ls"
      "\<forall>(g', t) \<in> set ls'. terminator_free g' \<and> sublist ''/path/to/mocha'' g'"
      "replace_template T (scan ?r (last_of (Some (last g)) t) ?tail)
         = lines_text ls' @ replace_template T (scan ?r p' rest)"
    by blast
  show ?case
    by (rule exI [of _ "(g', t) # ls'"], rule exI [of _ p'])
      (use l g' 2 ih in \<open>simp add: replace_template_append\<close>)
qed

lemma stage1:
  assumes mp: "terminator_free mp" "mp \<noteq> []"
    and T: "T = (\<lambda>c. capture c 1 @ ''/path/to/mocha'' @ capture c 2 @ ''??:??'')"
    and pre: "pre = [] \<or> line_terminator (last pre)" "\<not> sublist mp pre"
    and ls: "\<forall>(g, t) \<in> set ls. mocha_line mp g \<and> line_ending t \<and> t \<noteq> []"
    and f: "mocha_line mp f" and e: "line_ending e" "e = [] \<longrightarrow> post = []"
    and post: "\<not> sublist mp (first_line post)"
  shows "\<exists>ls' f'. map snd ls' = map snd ls \<and>
           (\<forall>(g', t) \<in> set ls'. terminator_free g' \<and> sublist ''/path/to/mocha'' g') \<and>
           terminator_free f' \<and> sublist ''/path/to/mocha'' f' \<and>
           replace_template T (scan (mocha_frame mp) None (pre @ lines_text ls @ f @ e @ post))
             = pre @ lines_text ls' @ f' @ e
                 @ replace_template T (scan (mocha_frame mp) None post)"
proof -
  let ?r = "mocha_frame mp"
  have needs: "\<And>p s c. ms ?r (p, s, c) \<noteq> [] \<Longrightarrow> sublist mp (first_line s)"
    using mocha_frame_needs [OF _ mp(1)] by blast
  have 1: "scan ?r None (pre @ lines_text ls @ f @ e @ post)
           = map Copied pre @ scan ?r (last_of None pre) (lines_text ls @ f @ e @ post)"
    using needs pre(2) pre(1) by (rule copy_lines)
  have p0: "at_line_start (last_of None pre)"
    using pre(1) by (auto simp add: last_of_def at_line_start_def)
  from stage1_lines [OF mp T p0 ls, of "f @ e @ post"] obtain ls' p' where
    2: "at_line_start p'" "map snd ls' = map snd ls"
      "\<forall>(g', t) \<in> set ls'. terminator_free g' \<and> sublist ''/path/to/mocha'' g'"
      "replace_template T (scan ?r (last_of None pre) (lines_text ls @ f @ e @ post))
         = lines_text ls' @ replace_template T (scan ?r p' (f @ e @ post))"
    by blast
  have e0: "e @ post = [] \<or> line_terminator (hd (e @ post))"
    using e line_ending_start [of e post] by (cases "e = []") simp_all
  from frame_step [OF 2(1) f mp e0 T] obtain f' where
    3: "terminator_free f'" "sublist ''/path/to/mocha'' f'"
      "replace_template T (scan ?r p' (f @ e @ post))
         = f' @ replace_template T (scan ?r (Some (last f)) (e @ post))"
    by blast
  from ending_step [OF mocha_line_nonempty(2) [OF f mp(2)] e(1) mp]
  have 4: "scan ?r (Some (last f)) (e @ post)
           = map Copied e @ scan ?r (last_of (Some (last f)) e) post" .
  have none: "ms ?r (q, post, []) = []" for q
    using needs [of q post "[]"] post by blast
  have 5: "scan ?r (last_of (Some (last f)) e) post = scan ?r None post"
    using none none by (rule scan_start)
  have 45: "scan ?r (Some (last f)) (e @ post) = map Copied e @ scan ?r None post"
    by (simp only: 4 5)
  show ?thesis
    by (rule exI [of _ ls'], rule exI [of _ f'])
      (use 2(2,3) 3(1,2) in \<open>simp add: 1 2(4) 3(3) 45 replace_template_append\<close>)
qed

text \<open>The first line of a text in which it does not match is kept by the rewriting.\<close>

lemma stage1_first_line:
  assumes mp: "terminator_free mp" "mp \<noteq> []"
    and post: "post = [] \<or> \<not> line_terminator (hd post)" "\<not> sublist mp (first_line post)"
  shows "replace_template T (scan (mocha_frame mp) None post) = [] \<longleftrightarrow> post = []"
    and "post \<noteq> [] \<Longrightarrow> \<not> line_terminator (hd (replace_template T (scan (mocha_frame mp) None post)))"
    and "first_line (replace_template T (scan (mocha_frame mp) None post)) = first_line post"
proof -
  let ?r = "mocha_frame mp"
  let ?v = "first_line post"
  let ?t = "dropWhile (\<lambda>x. \<not> line_terminator x) post"
  have needs: "\<And>p s c. ms ?r (p, s, c) \<noteq> [] \<Longrightarrow> sublist mp (first_line s)"
    using mocha_frame_needs [OF _ mp(1)] by blast
  have vt: "post = ?v @ ?t" by (simp add: first_line_def)
  have tfv: "terminator_free ?v"
    by (auto simp add: first_line_def terminator_free_def list_all_iff dest: set_takeWhileD)
  have t0: "?t = [] \<or> line_terminator (hd ?t)"
    using hd_dropWhile [of "\<lambda>x. \<not> line_terminator x" post] by auto
  have v0: "?v \<noteq> []" if "post \<noteq> []"
    using that post(1) by (cases post) (simp_all add: first_line_def)
  have nonempty: "replace_template T (scan ?r (Some y) (x # xs))
      = x # replace_template T (scan ?r (Some x) xs)" if "\<not> line_terminator y" for x xs y
  proof -
    have "\<not> at_line_start (Some y)" using that by (simp add: at_line_start_def)
    with mp(1) have "ms ?r (Some y, x # xs, []) = []" by (rule mocha_frame_line_start)
    then show ?thesis by (subst scan.simps) simp
  qed
  have c: "scan ?r None (?v @ ?t) = map Copied ?v @ scan ?r (last_of None ?v) ?t"
    using needs post(2) tfv t0 by (rule copy_line)
  then have r: "replace_template T (scan ?r None post)
                = ?v @ replace_template T (scan ?r (last_of None ?v) ?t)"
    using vt by (simp add: replace_template_append)
  have "ms ?r (q, [], []) = []" for q
    using needs [of q "[]" "[]"] mp(2) by auto
  then have e: "scan ?r q [] = []" for q
    by (subst scan.simps) simp
  show "replace_template T (scan ?r None post) = [] \<longleftrightarrow> post = []"
    using r v0 e by (cases "post = []") (simp_all add: first_line_def)
  show "\<not> line_terminator (hd (replace_template T (scan ?r None post)))" if "post \<noteq> []"
  proof -
    from v0 [OF that] have "hd (?v @ replace_template T (scan ?r (last_of None ?v) ?t)) = hd ?v"
      by simp
    moreover from v0 [OF that] have "hd ?v \<in> set ?v" by simp
    with tfv have "\<not> line_terminator (hd ?v)"
      by (simp add: terminator_free_def list_all_iff)
    ultimately show ?thesis using r by simp
  qed
  show "first_line (replace_template T (scan ?r None post)) = first_line post"
  proof (cases "?t = []")
    case True
    with r e show ?thesis
      using first_line_append [OF tfv, of "[]"] by (simp add: first_line_def)
  next
    case False
    then obtain x xs where t: "?t = x # xs" by (cases ?t) auto
    with t0 have x: "line_terminator x" by simp
    have "post \<noteq> []" using False by auto
    from v0 [OF this] have l: "last_of None ?v = Some (last ?v)" by (simp add: last_of_def)
    from v0 [OF \<open>post \<noteq> []\<close>] have "last ?v \<in> set ?v" by simp
    with tfv have "\<not> line_terminator (last ?v)"
      by (simp add: terminator_free_def list_all_iff)
    from nonempty [OF this, of x xs] obtain zs where
      "replace_template T (scan ?r (last_of None ?v) ?t) = x # zs"
      unfolding l t by blast
    with r x first_line_append [OF tfv, of "x # zs"] show ?thesis by simp
  qed
qed

lemma ms_Star_nonempty: "ms (Star a) st \<noteq> []"
  by (subst ms_Star) simp

lemma ms_Cls: "ms (Cls k) (p, s, c) =
    (case s of [] \<Rightarrow> [] | x # xs \<Rightarrow> if in_class k x then [(Some x, xs, c)] else [])"
  by (simp add: ms.simps)

lemma star_cls_results:
  "x \<in> set (ms (Star (Cls k)) (p, s, c)) \<Longrightarrow>
   \<exists>u. s = u @ fst (snd x) \<and> list_all (in_class k) u \<and> snd (snd x) = c \<and> fst x = last_of p u"
proof (induction s arbitrary: p)
  case Nil
  then have "x = (p, [], c)" by (subst (asm) ms_Star) (simp add: ms_Cls)
  then show ?case by simp
next
  case (Cons y ys)
  show ?case
  proof (cases "in_class k y")
    case False
    with Cons.prems have "x = (p, y # ys, c)" by (subst (asm) ms_Star) (simp add: ms_Cls)
    then show ?thesis by (intro exI [of _ "[]"]) simp
  next
    case True
    with Cons.prems have "x \<in> set (ms (Star (Cls k)) (Some y, ys, c)) \<or> x = (p, y # ys, c)"
      by (subst (asm) ms_Star) (auto simp add: ms_Cls)
    then show ?thesis
    proof
      assume "x = (p, y # ys, c)"
      then show ?thesis by (intro exI [of _ "[]"]) simp
    next
      assume "x \<in> set (ms (Star (Cls k)) (Some y, ys, c))"
      from Cons.IH [OF this] obtain u where
        "ys = u @ fst (snd x)" "list_all (in_class k) u" "snd (snd x) = c"
        "fst x = last_of (Some y) u"
        by blast
      with True show ?thesis
        by (intro exI [of _ "y # u"]) (simp add: last_of_def)
    qed
  qed
qed

lemma star_cls_head:
  "\<exists>xs. ms (Star (Cls k)) (p, s, c)
        = (last_of p (takeWhile (in_class k) s), dropWhile (in_class k) s, c) # xs"
proof (induction s arbitrary: p)
  case Nil
  show ?case by (subst ms_Star) (simp add: ms_Cls)
next
  case (Cons y ys)
  show ?case
  proof (cases "in_class k y")
    case False
    then show ?thesis by (subst ms_Star) (simp add: ms_Cls)
  next
    case True
    from Cons.IH [of "Some y"] obtain xs where
      "ms (Star (Cls k)) (Some y, ys, c)
        = (last_of (Some y) (takeWhile (in_class k) ys), dropWhile (in_class k) ys, c) # xs"
      by blast
    with True show ?thesis
      by (subst ms_Star) (simp add: ms_Cls last_of_def)
  qed
qed

lemma hd_concat_map:
  assumes "\<And>y. y \<in> set ys \<Longrightarrow> f y = [] \<or> P (hd (f y))" and "concat (map f ys) \<noteq> []"
  shows "P (hd (concat (map f ys)))"
  using assms
proof (induction ys)
  case Nil
  then show ?case by simp
next
  case (Cons y ys)
  show ?case
  proof (cases "f y = []")
    case True
    with Cons show ?thesis by simp
  next
    case False
    with Cons.prems(1) [of y] show ?thesis by simp
  qed
qed

lemma in_class_Dot: "in_class Dot = (\<lambda>x. \<not> line_terminator x)"
  by (intro ext) simp

lemma in_class_terminators: "in_class (OneOf [CR, LF]) = line_terminator"
  by (intro ext) (auto simp add: line_terminator_def)

lemma dropWhile_line:
  "terminator_free u \<Longrightarrow>
   dropWhile (\<lambda>x. \<not> line_terminator x) (u @ s) = dropWhile (\<lambda>x. \<not> line_terminator x) s"
  by (simp add: terminator_free_def list_all_iff dropWhile_append2)

lemma line_head:
  assumes l: "terminator_free l"
    and n: "ms (Seq (Star (Cls Dot)) (Seq (Lit l) (Star (Cls Dot)))) (p, s, c) \<noteq> []"
  shows "snd (hd (ms (Seq (Star (Cls Dot)) (Seq (Lit l) (Star (Cls Dot)))) (p, s, c)))
         = (dropWhile (\<lambda>x. \<not> line_terminator x) s, c)"
proof -
  let ?F = "ms (Seq (Lit l) (Star (Cls Dot)))"
  have m: "ms (Seq (Star (Cls Dot)) (Seq (Lit l) (Star (Cls Dot)))) (p, s, c)
           = concat (map ?F (ms (Star (Cls Dot)) (p, s, c)))"
    by (simp add: ms.simps(4))
  have "snd (hd (concat (map ?F (ms (Star (Cls Dot)) (p, s, c)))))
        = (dropWhile (\<lambda>x. \<not> line_terminator x) s, c)"
  proof (rule hd_concat_map [where P = "\<lambda>x. snd x = (dropWhile (\<lambda>x. \<not> line_terminator x) s, c)"])
    show "concat (map ?F (ms (Star (Cls Dot)) (p, s, c))) \<noteq> []"
      using n unfolding m .
    fix y assume y: "y \<in> set (ms (Star (Cls Dot)) (p, s, c))"
    obtain p1 s1 c1 where y': "y = (p1, s1, c1)" by (cases y)
    from star_cls_results [OF y] y' obtain u where
      u: "s = u @ s1" "list_all (in_class Dot) u" "c1 = c" by auto
    then have tfu: "terminator_free u" by (simp add: terminator_free_def list_all_iff)
    show "?F y = [] \<or> snd (hd (?F y)) = (dropWhile (\<lambda>x. \<not> line_terminator x) s, c)"
    proof (cases "ms (Lit l) y")
      case Nil
      then show ?thesis by (simp add: ms.simps(4))
    next
      case (Cons z zs)
      obtain p2 s2 c2 where z': "z = (p2, s2, c2)" by (cases z)
      from Cons z' y' have "(p2, s2, c2) \<in> set (ms (Lit l) (p1, s1, c1))" by simp
      from ms_Lit_elim [OF this] have z: "s1 = l @ s2" "c2 = c1" by simp_all
      with y' have "ms (Lit l) y = [(last_of p1 l, s2, c1)]" by simp
      then have F: "?F y = ms (Star (Cls Dot)) (last_of p1 l, s2, c1)"
        by (simp add: ms.simps(4))
      from star_cls_head [of Dot "last_of p1 l" s2 c1] obtain xs where
        "ms (Star (Cls Dot)) (last_of p1 l, s2, c1)
          = (last_of (last_of p1 l) (takeWhile (in_class Dot) s2), dropWhile (in_class Dot) s2, c1) # xs"
        by blast
      moreover have "dropWhile (\<lambda>x. \<not> line_terminator x) s
                     = dropWhile (\<lambda>x. \<not> line_terminator x) s2"
        using dropWhile_line [of "u @ l" s2] tfu l u(1) z(1) by simp
      ultimately show ?thesis using F u(3) by (simp add: in_class_Dot)
    qed
  qed
  then show ?thesis unfolding m .
qed

lemma take_dropWhile: "take (length s - length (dropWhile P s)) s = takeWhile P s"
proof -
  have "length (takeWhile P s) + length (dropWhile P s) = length s"
    by (metis length_append takeWhile_dropWhile_id)
  then have "length s - length (dropWhile P s) = length (takeWhile P s)" by simp
  then show ?thesis by (metis takeWhile_eq_take)
qed

text \<open>One repetition of the body of line 308: a line with the marker, then its line ending.\<close>

lemma body_head:
  assumes l: "terminator_free l"
    and n: "ms (Seq (Seq (Star (Cls Dot)) (Seq (Lit l) (Star (Cls Dot))))
                    (Group 1 (Star (Cls (OneOf [CR, LF]))))) (p, s, c) \<noteq> []"
  shows "snd (hd (ms (Seq (Seq (Star (Cls Dot)) (Seq (Lit l) (Star (Cls Dot))))
                    (Group 1 (Star (Cls (OneOf [CR, LF]))))) (p, s, c)))
         = (dropWhile line_terminator (dropWhile (\<lambda>x. \<not> line_terminator x) s),
            (1, takeWhile line_terminator (dropWhile (\<lambda>x. \<not> line_terminator x) s)) # c)"
proof -
  let ?L = "Seq (Star (Cls Dot)) (Seq (Lit l) (Star (Cls Dot)))"
  let ?G = "Group 1 (Star (Cls (OneOf [CR, LF])))"
  let ?e = "dropWhile (\<lambda>x. \<not> line_terminator x) s"
  have m: "ms (Seq ?L ?G) (p, s, c) = concat (map (ms ?G) (ms ?L (p, s, c)))"
    by (simp add: ms.simps(4))
  with n have "ms ?L (p, s, c) \<noteq> []" by auto
  then obtain z zs where z: "ms ?L (p, s, c) = z # zs" by (cases "ms ?L (p, s, c)") auto
  from line_head [OF l \<open>ms ?L (p, s, c) \<noteq> []\<close>] z obtain p1 where z': "z = (p1, ?e, c)"
    by (cases z) auto
  from star_cls_head [of "OneOf [CR, LF]" p1 ?e c] obtain xs where
    "ms (Star (Cls (OneOf [CR, LF]))) (p1, ?e, c)
       = (last_of p1 (takeWhile line_terminator ?e), dropWhile line_terminator ?e, c) # xs"
    by (auto simp add: in_class_terminators)
  then have "\<exists>ys. ms ?G z = (last_of p1 (takeWhile line_terminator ?e), dropWhile line_terminator ?e,
                      (1, takeWhile line_terminator ?e) # c) # ys"
    unfolding z' by (simp add: ms.simps(9) take_dropWhile)
  then show ?thesis unfolding m z by auto
qed

lemma body_needs:
  assumes l: "terminator_free l"
    and n: "ms (Seq (Seq (Star (Cls Dot)) (Seq (Lit l) (Star (Cls Dot)))) G) (p, s, c) \<noteq> []"
  shows "sublist l (first_line s)"
proof -
  from ms_Seq_nonempty [OF n] obtain y where
    "y \<in> set (ms (Seq (Star (Cls Dot)) (Seq (Lit l) (Star (Cls Dot)))) (p, s, c))" by blast
  then obtain y1 where y1: "y1 \<in> set (ms (Star (Cls Dot)) (p, s, c))"
    and "y \<in> set (ms (Seq (Lit l) (Star (Cls Dot))) y1)"
    by (rule ms_Seq_elim)
  then obtain y2 where y2: "y2 \<in> set (ms (Lit l) y1)"
    by (auto elim: ms_Seq_elim)
  obtain p1 s1 c1 where y1': "y1 = (p1, s1, c1)" by (cases y1)
  obtain p2 s2 c2 where y2': "y2 = (p2, s2, c2)" by (cases y2)
  from star_cls_results [OF y1] y1' obtain u where u: "s = u @ s1" "list_all (in_class Dot) u"
    by auto
  then have tfu: "terminator_free u" by (simp add: terminator_free_def list_all_iff)
  from y2 y1' y2' have "s1 = l @ s2" using ms_Lit_elim(1) by blast
  with u have "s = (u @ l) @ s2" by simp
  with first_line_append [of "u @ l" s2] tfu l have "first_line s = u @ l @ first_line s2"
    by simp
  then show ?thesis by simp
qed

lemma body_matches:
  assumes g: "terminator_free g" "sublist l g"
  shows "ms (Seq (Seq (Star (Cls Dot)) (Seq (Lit l) (Star (Cls Dot))))
                 (Group 1 (Star (Cls (OneOf [CR, LF]))))) (p, g @ t, c) \<noteq> []"
proof -
  from g(2) obtain a b where ab: "g = a @ l @ b" by (auto simp add: sublist_def)
  with g(1) have tfa: "terminator_free a" and tfb: "terminator_free b" by simp_all
  let ?s2 = "b @ t"
  let ?s1 = "l @ ?s2"
  have gt: "g @ t = a @ ?s1" by (simp add: ab)
  have 1: "(last_of p a, ?s1, c) \<in> set (ms (Star (Cls Dot)) (p, a @ ?s1, c))"
    by (rule star_cls_reach [OF terminator_free_Dot [OF tfa]])
  have 2: "(last_of (last_of p a) l, ?s2, c) \<in> set (ms (Lit l) (last_of p a, ?s1, c))"
    by (rule ms_Lit_reach)
  have 3: "(last_of (last_of (last_of p a) l) b, t, c)
            \<in> set (ms (Star (Cls Dot)) (last_of (last_of p a) l, ?s2, c))"
    by (rule star_cls_reach [OF terminator_free_Dot [OF tfb]])
  have "(last_of (last_of (last_of (last_of p a) l) b) [], t, c)
            \<in> set (ms (Star (Cls (OneOf [CR, LF]))) (last_of (last_of (last_of p a) l) b, [] @ t, c))"
    by (rule star_cls_reach) simp
  then have "(last_of (last_of (last_of p a) l) b, t, c)
            \<in> set (ms (Star (Cls (OneOf [CR, LF]))) (last_of (last_of (last_of p a) l) b, t, c))"
    by (simp del: last_of_simps(3,4) add: last_of_simps(1))
  from group_reach [OF this, of 1] obtain c' where
    4: "(last_of (last_of (last_of p a) l) b, t, c')
          \<in> set (ms (Group 1 (Star (Cls (OneOf [CR, LF]))))
                  (last_of (last_of (last_of p a) l) b, t, c))"
    by blast
  have "(last_of (last_of (last_of p a) l) b, t, c')
          \<in> set (ms (Seq (Seq (Star (Cls Dot)) (Seq (Lit l) (Star (Cls Dot))))
                 (Group 1 (Star (Cls (OneOf [CR, LF]))))) (p, a @ ?s1, c))"
    by (rule ms_Seq_member [OF ms_Seq_member [OF 1 ms_Seq_member [OF 2 3]] 4])
  then show ?thesis unfolding gt by auto
qed

lemma star_head_step:
  assumes "ms a st = x # xs" and "length (fst (snd x)) < length (fst (snd st))"
  shows "hd (ms (Star a) st) = hd (ms (Star a) x)"
  using assms ms_Star_nonempty [of a x] by (subst ms_Star) simp

lemma star_head_stop: "ms a st = [] \<Longrightarrow> ms (Star a) st = [st]"
  by (subst ms_Star) simp

lemma rep1_head:
  assumes "ms a st = x # xs"
  shows "ms (Rep1 a) st \<noteq> []" and "hd (ms (Rep1 a) st) = hd (ms (Star a) x)"
  using assms ms_Star_nonempty [of a x] by (simp_all add: Rep1_def ms.simps(4))

lemma rep1_needs: "ms (Rep1 a) st \<noteq> [] \<Longrightarrow> ms a st \<noteq> []"
  by (auto simp add: Rep1_def ms.simps(4))

lemma dropWhile_to_ending:
  assumes "terminator_free g" and "t = [] \<or> line_terminator (hd t)"
  shows "dropWhile (\<lambda>x. \<not> line_terminator x) (g @ t) = t"
  using assms dropWhile_line [of g t] by (cases t) auto

lemma ending_then_line:
  assumes "line_ending t" and "s = [] \<or> \<not> line_terminator (hd s)"
  shows "takeWhile line_terminator (t @ s) = t" and "dropWhile line_terminator (t @ s) = s"
proof -
  from assms(1) have a: "\<forall>x \<in> set t. line_terminator x"
    by (simp add: line_ending_def list_all_iff)
  from assms(2) have "takeWhile line_terminator s = []" "dropWhile line_terminator s = s"
    by (cases s; simp)+
  with a show "takeWhile line_terminator (t @ s) = t" "dropWhile line_terminator (t @ s) = s"
    by (simp_all add: takeWhile_append2 dropWhile_append2)
qed

text \<open>One repetition over a marked line and its ending.\<close>

lemma body_line:
  assumes l: "terminator_free l" and g: "terminator_free g" "sublist l g"
    and t: "line_ending t" "t @ s = [] \<or> line_terminator (hd (t @ s))"
    and s: "s = [] \<or> \<not> line_terminator (hd s)"
  shows "\<exists>p' xs. ms (Seq (Seq (Star (Cls Dot)) (Seq (Lit l) (Star (Cls Dot))))
                       (Group 1 (Star (Cls (OneOf [CR, LF]))))) (p, g @ t @ s, c)
                 = (p', s, (1, t) # c) # xs"
proof -
  let ?B = "Seq (Seq (Star (Cls Dot)) (Seq (Lit l) (Star (Cls Dot))))
                (Group 1 (Star (Cls (OneOf [CR, LF]))))"
  have n: "ms ?B (p, g @ t @ s, c) \<noteq> []" by (rule body_matches [OF g])
  have d: "dropWhile (\<lambda>x. \<not> line_terminator x) (g @ t @ s) = t @ s"
    using g(1) t(2) by (rule dropWhile_to_ending)
  from body_head [OF l n] have "snd (hd (ms ?B (p, g @ t @ s, c))) = (s, (1, t) # c)"
    unfolding d ending_then_line [OF t(1) s] .
  with n show ?thesis by (cases "ms ?B (p, g @ t @ s, c)") auto
qed

lemma marked_nonempty:
  assumes "terminator_free g" and "sublist l g" and "l \<noteq> []"
  shows "g \<noteq> []" and "\<not> line_terminator (hd g)"
proof -
  from assms(2,3) show g: "g \<noteq> []" by auto
  from assms(1) have "\<forall>y \<in> set g. \<not> line_terminator y"
    by (simp add: terminator_free_def list_all_iff)
  with g show "\<not> line_terminator (hd g)" by simp
qed

lemma lines_start:
  assumes "\<forall>(g, t) \<in> set ls. terminator_free g \<and> sublist l g \<and> line_ending t \<and> t \<noteq> []"
    and "terminator_free f" and "sublist l f" and "l \<noteq> []"
  shows "lines_text ls @ f @ s \<noteq> []" and "\<not> line_terminator (hd (lines_text ls @ f @ s))"
proof -
  from marked_nonempty [OF assms(2,3,4)] have f: "f \<noteq> []" "\<not> line_terminator (hd f)" .
  then show "lines_text ls @ f @ s \<noteq> []" by simp
  show "\<not> line_terminator (hd (lines_text ls @ f @ s))"
  proof (cases ls)
    case Nil
    with f show ?thesis by simp
  next
    case (Cons a ls')
    obtain g t where a: "a = (g, t)" by (cases a)
    with Cons assms(1) have "terminator_free g" "sublist l g" by auto
    from marked_nonempty [OF this assms(4)] Cons a show ?thesis by simp
  qed
qed

lemma star_run:
  fixes l :: string
  defines "B \<equiv> Seq (Seq (Star (Cls Dot)) (Seq (Lit l) (Star (Cls Dot))))
                   (Group 1 (Star (Cls (OneOf [CR, LF]))))"
  assumes l: "terminator_free l" "l \<noteq> []"
    and ls: "\<forall>(g, t) \<in> set ls. terminator_free g \<and> sublist l g \<and> line_ending t \<and> t \<noteq> []"
    and f: "terminator_free f" "sublist l f"
    and e: "line_ending e" "e = [] \<longrightarrow> post = []"
    and post: "post = [] \<or> \<not> line_terminator (hd post)" "\<not> sublist l (first_line post)"
  shows "\<exists>p' c'. hd (ms (Star B) (p, lines_text ls @ f @ e @ post, c)) = (p', post, c') \<and>
                 capture c' 1 = e"
  using ls
proof (induction ls arbitrary: p c)
  case Nil
  have e0: "e @ post = [] \<or> line_terminator (hd (e @ post))"
    using e line_ending_start [of e post] by (cases "e = []") simp_all
  from body_line [OF l(1) f e(1) e0 post(1), of p c] obtain p' xs where
    1: "ms B (p, f @ e @ post, c) = (p', post, (1, e) # c) # xs"
    unfolding B_def by blast
  have "f \<noteq> []" using marked_nonempty(1) [OF f l(2)] .
  then have 2: "length (fst (snd (p', post, (1, e) # c))) < length (fst (snd (p, f @ e @ post, c)))"
    by simp
  have "ms B (p', post, (1, e) # c) = []"
  proof (rule ccontr)
    assume "ms B (p', post, (1, e) # c) \<noteq> []"
    then have "sublist l (first_line post)" unfolding B_def by (rule body_needs [OF l(1)])
    with post(2) show False by simp
  qed
  then have "ms (Star B) (p', post, (1, e) # c) = [(p', post, (1, e) # c)]"
    by (rule star_head_stop)
  with star_head_step [OF 1 2] show ?case
    by (simp add: capture_def)
next
  case (Cons a ls)
  obtain g t where a: "a = (g, t)" by (cases a)
  from Cons.prems a have g: "terminator_free g" "sublist l g" and t: "line_ending t" "t \<noteq> []"
    and ls: "\<forall>(g, t) \<in> set ls. terminator_free g \<and> sublist l g \<and> line_ending t \<and> t \<noteq> []"
    by auto
  let ?s = "lines_text ls @ f @ e @ post"
  from line_ending_start [OF t] have t0: "t @ ?s = [] \<or> line_terminator (hd (t @ ?s))" by simp
  from lines_start [OF ls f l(2), of "e @ post"]
  have s0: "?s = [] \<or> \<not> line_terminator (hd ?s)" by simp
  from body_line [OF l(1) g t(1) t0 s0, of p c] obtain p' xs where
    1: "ms B (p, g @ t @ ?s, c) = (p', ?s, (1, t) # c) # xs"
    unfolding B_def by blast
  have "g \<noteq> []" using marked_nonempty(1) [OF g l(2)] .
  then have 2: "length (fst (snd (p', ?s, (1, t) # c))) < length (fst (snd (p, g @ t @ ?s, c)))"
    by simp
  from Cons.IH [OF ls, of p' "(1, t) # c"] star_head_step [OF 1 2] a show ?case
    by simp
qed

lemma mocha_frames_needs:
  assumes "ms mocha_frames (p, s, c) \<noteq> []"
  shows "sublist ''/path/to/mocha'' (first_line s)"
proof -
  have l: "terminator_free ''/path/to/mocha''"
    by (simp add: line_terminator_def LF_def CR_def)
  from assms have "ms (Seq (Seq (Star (Cls Dot)) (Seq (Lit ''/path/to/mocha'') (Star (Cls Dot))))
                (Group 1 (Star (Cls (OneOf [CR, LF]))))) (p, s, c) \<noteq> []"
    unfolding mocha_frames_def seq.simps by (rule rep1_needs)
  then show ?thesis by (rule body_needs [OF l])
qed

lemma stage2:
  assumes T: "T = (\<lambda>c. ''    at [Mocha internals]'' @ capture c 1)"
    and pre: "pre = [] \<or> line_terminator (last pre)" "\<not> sublist ''/path/to/mocha'' pre"
    and ls: "\<forall>(g, t) \<in> set ls. terminator_free g \<and> sublist ''/path/to/mocha'' g \<and>
                                 line_ending t \<and> t \<noteq> []"
    and f: "terminator_free f" "sublist ''/path/to/mocha'' f"
    and e: "line_ending e" "e = [] \<longrightarrow> post = []"
    and post: "post = [] \<or> \<not> line_terminator (hd post)"
      "\<not> sublist ''/path/to/mocha'' (first_line post)"
  shows "replace_template T (scan mocha_frames None (pre @ lines_text ls @ f @ e @ post))
         = pre @ ''    at [Mocha internals]'' @ e
             @ replace_template T (scan mocha_frames None post)"
proof -
  let ?l = "''/path/to/mocha''"
  let ?B = "Seq (Seq (Star (Cls Dot)) (Seq (Lit ?l) (Star (Cls Dot))))
                (Group 1 (Star (Cls (OneOf [CR, LF]))))"
  let ?R = "lines_text ls @ f @ e @ post"
  have l: "terminator_free ?l" "?l \<noteq> []"
    by (simp_all add: line_terminator_def LF_def CR_def)
  have m: "mocha_frames = Rep1 ?B" by (simp add: mocha_frames_def)
  have needs: "\<And>p s c. ms mocha_frames (p, s, c) \<noteq> [] \<Longrightarrow> sublist ?l (first_line s)"
    by (rule mocha_frames_needs)
  have 1: "scan mocha_frames None (pre @ ?R)
           = map Copied pre @ scan mocha_frames (last_of None pre) ?R"
    using needs pre(2) pre(1) by (rule copy_lines)
  let ?p = "last_of None pre"
  have e0: "e @ post = [] \<or> line_terminator (hd (e @ post))"
    using e line_ending_start [of e post] by (cases "e = []") simp_all
  have "\<exists>x xs. ms ?B (?p, ?R, []) = x # xs \<and> length (fst (snd x)) < length ?R"
  proof (cases ls)
    case Nil
    from body_line [OF l(1) f e(1) e0 post(1), of ?p "[]"] obtain p' xs where
      "ms ?B (?p, f @ e @ post, []) = (p', post, [(1, e)]) # xs" by blast
    moreover have "f \<noteq> []" using marked_nonempty(1) [OF f l(2)] .
    ultimately show ?thesis using Nil by simp
  next
    case (Cons a ls')
    obtain g t where a: "a = (g, t)" by (cases a)
    with Cons ls have g: "terminator_free g" "sublist ?l g" and t: "line_ending t" "t \<noteq> []"
      and ls': "\<forall>(g, t) \<in> set ls'. terminator_free g \<and> sublist ?l g \<and>
                                 line_ending t \<and> t \<noteq> []"
      by auto
    let ?s = "lines_text ls' @ f @ e @ post"
    from line_ending_start [OF t] have t0: "t @ ?s = [] \<or> line_terminator (hd (t @ ?s))"
      by simp
    from lines_start [OF ls' f l(2), of "e @ post"]
    have s0: "?s = [] \<or> \<not> line_terminator (hd ?s)" by simp
    from body_line [OF l(1) g t(1) t0 s0, of ?p "[]"] obtain p' xs where
      "ms ?B (?p, g @ t @ ?s, []) = (p', ?s, [(1, t)]) # xs" by blast
    moreover have "g \<noteq> []" using marked_nonempty(1) [OF g l(2)] .
    ultimately show ?thesis using Cons a by simp
  qed
  then obtain x xs where x: "ms ?B (?p, ?R, []) = x # xs"
    and "length (fst (snd x)) < length ?R" by blast
  then have prog: "length (fst (snd x)) < length (fst (snd (?p, ?R, [])))" by simp
  from rep1_head [OF x] star_head_step [OF x prog]
  have h: "ms mocha_frames (?p, ?R, []) \<noteq> []"
    "hd (ms mocha_frames (?p, ?R, [])) = hd (ms (Star ?B) (?p, ?R, []))"
    unfolding m by simp_all
  from star_run [OF l ls f e post, of ?p "[]"] obtain p' c' where
    r: "hd (ms (Star ?B) (?p, ?R, [])) = (p', post, c')" "capture c' 1 = e"
    by blast
  from h r obtain ys where ms: "ms mocha_frames (?p, ?R, []) = (p', post, c') # ys"
    by (cases "ms mocha_frames (?p, ?R, [])") auto
  have "f \<noteq> []" using marked_nonempty(1) [OF f l(2)] .
  then have len: "length post < length ?R" by simp
  have 2: "scan mocha_frames ?p ?R = Matched c' # scan mocha_frames p' post"
    using ms len by (subst scan.simps) simp
  have none: "ms mocha_frames (q, post, []) = []" for q
    using needs [of q post "[]"] post(2) by blast
  have 3: "scan mocha_frames p' post = scan mocha_frames None post"
    using none none by (rule scan_start)
  have "replace_template T (scan mocha_frames None (pre @ ?R))
        = pre @ T c' @ replace_template T (scan mocha_frames None post)"
    by (simp add: 1 2 3 replace_template_append)
  then show ?thesis
    using r(2) by (simp add: T)
qed

lemma same_endings:
  assumes "map snd ls' = map snd ls" and "\<forall>(g, t) \<in> set ls. Q t"
  shows "\<forall>(g, t) \<in> set ls'. Q t"
proof -
  from assms(1) have "snd ` set ls' = snd ` set ls" by (metis set_map)
  with assms(2) show ?thesis by force
qed

lemma normaliseMocha_run:
  assumes mp: "terminator_free mp" "mp \<noteq> []"
    and pre: "pre = [] \<or> line_terminator (last pre)" "\<not> sublist mp pre"
      "\<not> sublist ''/path/to/mocha'' pre"
    and ls: "\<forall>(g, t) \<in> set ls. mocha_line mp g \<and> line_ending t \<and> t \<noteq> []"
    and f: "mocha_line mp f" and e: "line_ending e" "e = [] \<longrightarrow> post = []"
    and post: "post = [] \<or> \<not> line_terminator (hd post)" "\<not> sublist mp (first_line post)"
      "\<not> sublist ''/path/to/mocha'' (first_line post)"
  shows "normaliseMocha mp (pre @ lines_text ls @ f @ e @ post)
         = pre @ ''    at [Mocha internals]'' @ e @ normaliseMocha mp post"
proof -
  let ?T1 = "\<lambda>c. capture c 1 @ ''/path/to/mocha'' @ capture c 2 @ ''??:??''"
  let ?P = "replace_template ?T1 (scan (mocha_frame mp) None post)"
  from stage1 [OF mp refl pre(1,2) ls f e post(2)] obtain ls' f' where
    1: "map snd ls' = map snd ls"
      "\<forall>(g', t) \<in> set ls'. terminator_free g' \<and> sublist ''/path/to/mocha'' g'"
      "terminator_free f'" "sublist ''/path/to/mocha'' f'"
      "replace_template ?T1 (scan (mocha_frame mp) None (pre @ lines_text ls @ f @ e @ post))
       = pre @ lines_text ls' @ f' @ e @ ?P"
    by blast
  from ls have "\<forall>(g, t) \<in> set ls. line_ending t \<and> t \<noteq> []" by auto
  from same_endings [OF 1(1) this] 1(2)
  have ls': "\<forall>(g, t) \<in> set ls'. terminator_free g \<and> sublist ''/path/to/mocha'' g \<and>
                                 line_ending t \<and> t \<noteq> []"
    by auto
  note fl = stage1_first_line [OF mp post(1,2), where T = ?T1]
  have e': "e = [] \<longrightarrow> ?P = []" using e(2) fl(1) by blast
  have P0: "?P = [] \<or> \<not> line_terminator (hd ?P)" using fl(1,2) by blast
  have P1: "\<not> sublist ''/path/to/mocha'' (first_line ?P)" using post(3) fl(3) by simp
  from stage2 [OF refl pre(1,3) ls' 1(3,4) e(1) e' P0 P1] 1(5) show ?thesis
    by (simp add: normaliseMocha_def)
qed


lemma mocha_line_example:
  assumes "digits d1" and "digits d2" and "terminator_free (a @ ''/m'' @ b @ '':'' @ d1 @ '':'' @ d2 @ c)"
  shows "mocha_line ''/m'' (a @ ''/m'' @ b @ '':'' @ d1 @ '':'' @ d2 @ c)"
  unfolding mocha_line_def using assms by blast

lemmas eval_chars = line_terminator_def LF_def CR_def digit_def digits_def line_ending_def
  terminator_free_def


text \<open>
  C6: take a stack whose source-mapped text holds a run of \<open>n \<ge> 1\<close> consecutive frames
  of the test runner: whole lines, each a frame, every line but the last followed by a
  line ending; the text before the run mentions neither the path of the test runner nor
  the placeholder path, and neither does the line after the run. Rewriting and grouping
  the frames (lines 306 and 308) replaces the run by the single line
  \<open>at [Mocha internals]\<close> followed by the line ending of the last frame; the text before
  is kept, and the text after is normalised on its own, further runs included. So the text
  handed to the later steps, and with it the result of \<open>normaliseStack\<close>, is the same for
  every \<open>n\<close> and for all frames of the run.
\<close>

theorem C6_run_of_frames_collapses:
  assumes "moduleDataMap module = Some moduleData"
    and "source_mapped env moduleData stack = Inr (pre @ lines_text ls @ f @ e @ post)"
    and "terminator_free (mochaPath env)" and "mochaPath env \<noteq> []"
    and "pre = [] \<or> line_terminator (last pre)"
    and "\<not> sublist (mochaPath env) pre" and "\<not> sublist ''/path/to/mocha'' pre"
    and "\<forall>(g, t) \<in> set ls. mocha_line (mochaPath env) g \<and> line_ending t \<and> t \<noteq> []"
    and "mocha_line (mochaPath env) f" and "line_ending e" and "e = [] \<longrightarrow> post = []"
    and "post = [] \<or> \<not> line_terminator (hd post)"
    and "\<not> sublist (mochaPath env) (first_line post)"
    and "\<not> sublist ''/path/to/mocha'' (first_line post)"
  shows "normaliseMocha (mochaPath env) (pre @ lines_text ls @ f @ e @ post)
           = pre @ ''    at [Mocha internals]'' @ e @ normaliseMocha (mochaPath env) post \<and>
         normaliseStack env moduleDataMap stack module
           = ResolvedWith (normalisePHPCore (resolvedPHPCorePath env)
               (normaliseInternals (pre @ ''    at [Mocha internals]'' @ e
                  @ normaliseMocha (mochaPath env) post)))"
proof -
  have "normaliseMocha (mochaPath env) (pre @ lines_text ls @ f @ e @ post)
           = pre @ ''    at [Mocha internals]'' @ e @ normaliseMocha (mochaPath env) post"
    using assms(3-14) by (rule normaliseMocha_run)
  with assms(1,2) show ?thesis by (simp add: normaliseStack_def)
qed

theorem C6_witness:
  "normaliseStack first_line_only [0 \<mapsto> \<lparr>sourceMapGenerator = (), path = None\<rparr>]
     (''E'' @ [LF] @ ''a /m/r:1:2'' @ [LF] @ ''b /m/s:3:4)'' @ [CR, LF] @ ''c /m/t:5:6''
        @ [LF] @ ''z'' @ [LF] @ ''d /m/u:7:8'') 0
   = ResolvedWith (''E'' @ [LF] @ ''    at [Mocha internals]'' @ [LF] @ ''z'' @ [LF]
                    @ ''    at [Mocha internals]'')"
proof -
  let ?md = "\<lparr>sourceMapGenerator = (), path = None\<rparr>"
  let ?ls = "[(''a /m/r:1:2'', [LF]), (''b /m/s:3:4)'', [CR, LF])]"
  let ?post = "''z'' @ [LF] @ ''d /m/u:7:8''"
  let ?stack = "(''E'' @ [LF]) @ lines_text ?ls @ ''c /m/t:5:6'' @ [LF] @ ?post"
  have 1: "[0 \<mapsto> ?md] (0::nat) = Some ?md" by simp
  have 2: "source_mapped first_line_only ?md ?stack = Inr ?stack"
    by (simp add: source_mapped_def lines_text_def transpiled_frame_def scan.simps ms.simps
        eval_chars)
  have 3: "terminator_free (mochaPath first_line_only)" "mochaPath first_line_only \<noteq> []"
    by (simp_all add: first_line_only_def eval_chars)
  have 4: "''E'' @ [LF] = [] \<or> line_terminator (last (''E'' @ [LF]))"
    by (simp add: eval_chars)
  have 5: "\<not> sublist (mochaPath first_line_only) (''E'' @ [LF])"
    "\<not> sublist ''/path/to/mocha'' (''E'' @ [LF])"
    "\<not> sublist (mochaPath first_line_only) (first_line ?post)"
    "\<not> sublist ''/path/to/mocha'' (first_line ?post)"
    by (simp_all add: first_line_only_def first_line_def sublist_Cons_right eval_chars)
  have a: "mocha_line ''/m'' (''a '' @ ''/m'' @ ''/r'' @ '':'' @ ''1'' @ '':'' @ ''2'' @ [])"
    by (rule mocha_line_example) (simp_all add: eval_chars)
  have b: "mocha_line ''/m'' (''b '' @ ''/m'' @ ''/s'' @ '':'' @ ''3'' @ '':'' @ ''4'' @ '')'')"
    by (rule mocha_line_example) (simp_all add: eval_chars)
  have c: "mocha_line ''/m'' (''c '' @ ''/m'' @ ''/t'' @ '':'' @ ''5'' @ '':'' @ ''6'' @ [])"
    by (rule mocha_line_example) (simp_all add: eval_chars)
  have 6: "\<forall>(g, t) \<in> set ?ls. mocha_line (mochaPath first_line_only) g \<and> line_ending t \<and> t \<noteq> []"
    using a b by (simp add: first_line_only_def eval_chars)
  have 7: "mocha_line (mochaPath first_line_only) ''c /m/t:5:6''"
    using c by (simp add: first_line_only_def)
  have 8: "line_ending [LF]" "[LF] = [] \<longrightarrow> ?post = []"
    "?post = [] \<or> \<not> line_terminator (hd ?post)"
    by (simp_all add: eval_chars)
  have m: "normaliseMocha (mochaPath first_line_only) ?post
           = ''z'' @ [LF] @ ''    at [Mocha internals]''"
    by (simp add: normaliseMocha_def first_line_only_def mocha_frame_def mocha_frames_def
        Rep1_def scan.simps ms.simps eval_chars at_line_start_def capture_def)
  from C6_run_of_frames_collapses [where moduleDataMap = "[0 \<mapsto> ?md]" and module = 0
      and env = first_line_only, OF 1 2 3 4 5(1,2) 6 7 8 5(3,4)]
  have "normaliseStack first_line_only [0 \<mapsto> ?md] ?stack 0
        = ResolvedWith (normalisePHPCore (resolvedPHPCorePath first_line_only)
            (normaliseInternals ((''E'' @ [LF]) @ ''    at [Mocha internals]'' @ [LF]
               @ normaliseMocha (mochaPath first_line_only) ?post)))"
    by simp
  also have "normaliseInternals ((''E'' @ [LF]) @ ''    at [Mocha internals]'' @ [LF]
               @ normaliseMocha (mochaPath first_line_only) ?post)
             = ''E'' @ [LF] @ ''    at [Mocha internals]'' @ [LF] @ ''z'' @ [LF]
                 @ ''    at [Mocha internals]''"
    unfolding m
    by (simp add: normaliseInternals_def internal_frame_def internal_frames_def Rep1_def
        LazyRep1_def scan.simps ms.simps eval_chars at_line_start_def)
  also have "normalisePHPCore (resolvedPHPCorePath first_line_only)
               (''E'' @ [LF] @ ''    at [Mocha internals]'' @ [LF] @ ''z'' @ [LF]
                 @ ''    at [Mocha internals]'')
             = ''E'' @ [LF] @ ''    at [Mocha internals]'' @ [LF] @ ''z'' @ [LF]
                 @ ''    at [Mocha internals]''"
    by (simp add: normalisePHPCore_def first_line_only_def scan.simps ms.simps eval_chars)
  finally have r: "normaliseStack first_line_only [0 \<mapsto> ?md] ?stack 0
        = ResolvedWith (''E'' @ [LF] @ ''    at [Mocha internals]'' @ [LF] @ ''z'' @ [LF]
                 @ ''    at [Mocha internals]'')" .
  have s: "?stack = ''E'' @ [LF] @ ''a /m/r:1:2'' @ [LF] @ ''b /m/s:3:4)'' @ [CR, LF]
                     @ ''c /m/t:5:6'' @ [LF] @ ''z'' @ [LF] @ ''d /m/u:7:8''"
    by (simp add: lines_text_def)
  from r show ?thesis by (simp only: s)
qed

end
